theory Spec2Isabelle
  imports Complex_Main "HOL-Library.Word" "HOL-Library.Multiset"
begin

section \<open>Data model of app.js\<close>

text \<open>
  A photo object carries, among fields that the ranking and clustering code never reads
  (name, path, file handle), its id, its Elo rating and its comparison count. The count
  may be \<open>undefined\<close> in JavaScript (a session restored from a cache entry without the
  field); that is \<open>None\<close> here, and every read in the source goes through
  \<open>(p.comparisons || 0)\<close>. JavaScript numbers are modelled by exact reals.
\<close>

record photo =
  photo_id :: string
  elo :: real
  comparisons :: "nat option"

text \<open>One entry of \<open>state.comparisonHistory\<close>, as pushed by confirmComparison and skipComparison.\<close>

record comparison =
  rec_a :: string
  rec_b :: string
  rec_winner :: "string option"
  prevEloA :: real
  prevEloB :: real
  prevCompA :: "nat option"
  prevCompB :: "nat option"

text \<open>A fingerprint is a \<open>Uint8Array\<close>; a missing one (\<open>null\<close>, \<open>undefined\<close>) is \<open>None\<close>.\<close>

type_synonym fingerprint = "8 word list"

text \<open>
  The part of the global \<open>state\<close> object that ranking and clustering use. The objects of
  \<open>state.candidates\<close> are identified by their position in the array: a reference to a
  candidate is an index into \<open>candidates\<close>, so \<open>currentPair\<close> is a pair of indices.
  \<open>currentSelection\<close> is a JavaScript \<open>Set\<close>, kept in insertion order.
\<close>

record state =
  allPhotos :: "photo list"
  candidates :: "photo list"
  targetCount :: int
  clusters :: "photo list list"
  clusterFingerprints :: "string \<rightharpoonup> fingerprint"
  clusterThreshold :: real
  comparisonHistory :: "comparison list"
  comparisonsCompleted :: int
  currentPair :: "(nat \<times> nat) option"
  currentSelection :: "string list"

definition ELO_K :: real where
  "ELO_K = 32"

definition ELO_DEFAULT :: real where
  "ELO_DEFAULT = 1500"

text \<open>The read \<open>(p.comparisons || 0)\<close>.\<close>

definition comparisons_or0 :: "photo \<Rightarrow> nat" where
  "comparisons_or0 p = (case comparisons p of None \<Rightarrow> 0 | Some n \<Rightarrow> n)"

section \<open>Elo rating system\<close>

definition expectedScore :: "real \<Rightarrow> real \<Rightarrow> real" where
  "expectedScore ratingA ratingB = 1 / (1 + 10 powr ((ratingB - ratingA) / 400))"

text \<open>
  updateEloRatings and updateEloTie mutate the two objects they are given. The model
  performs the four assignments in the order of the source on the candidate array, the
  objects being the entries at positions \<open>w\<close> and \<open>l\<close>.
\<close>

definition updateEloRatings :: "photo list \<Rightarrow> nat \<Rightarrow> nat \<Rightarrow> photo list" where
  "updateEloRatings cs w l =
     (let expectedWin = expectedScore (elo (cs ! w)) (elo (cs ! l));
          expectedLose = expectedScore (elo (cs ! l)) (elo (cs ! w));
          c1 = cs[w := (cs ! w)\<lparr>elo := elo (cs ! w) + ELO_K * (1 - expectedWin)\<rparr>];
          c2 = c1[l := (c1 ! l)\<lparr>elo := elo (c1 ! l) + ELO_K * (0 - expectedLose)\<rparr>];
          c3 = c2[w := (c2 ! w)\<lparr>comparisons := Some (comparisons_or0 (c2 ! w) + 1)\<rparr>];
          c4 = c3[l := (c3 ! l)\<lparr>comparisons := Some (comparisons_or0 (c3 ! l) + 1)\<rparr>]
      in c4)"

definition updateEloTie :: "photo list \<Rightarrow> nat \<Rightarrow> nat \<Rightarrow> photo list" where
  "updateEloTie cs pa pb =
     (let expectedA = expectedScore (elo (cs ! pa)) (elo (cs ! pb));
          expectedB = expectedScore (elo (cs ! pb)) (elo (cs ! pa));
          c1 = cs[pa := (cs ! pa)\<lparr>elo := elo (cs ! pa) + ELO_K * (0.5 - expectedA)\<rparr>];
          c2 = c1[pb := (c1 ! pb)\<lparr>elo := elo (c1 ! pb) + ELO_K * (0.5 - expectedB)\<rparr>];
          c3 = c2[pa := (c2 ! pa)\<lparr>comparisons := Some (comparisons_or0 (c2 ! pa) + 1)\<rparr>];
          c4 = c3[pb := (c3 ! pb)\<lparr>comparisons := Some (comparisons_or0 (c3 ! pb) + 1)\<rparr>]
      in c4)"

section \<open>Array helpers\<close>

text \<open>
  \<open>Array.prototype.sort\<close> with a consistent comparator is a stable sort: an element goes
  before another when the comparator is negative, and elements that compare equal keep
  their order. Insertion from the right end of the array gives exactly that order.
\<close>

fun insert_sorted :: "('a \<Rightarrow> 'a \<Rightarrow> real) \<Rightarrow> 'a \<Rightarrow> 'a list \<Rightarrow> 'a list" where
  "insert_sorted cmp x [] = [x]"
| "insert_sorted cmp x (y # ys) =
     (if cmp x y \<le> 0 then x # y # ys else y # insert_sorted cmp x ys)"

definition js_sort :: "('a \<Rightarrow> 'a \<Rightarrow> real) \<Rightarrow> 'a list \<Rightarrow> 'a list" where
  "js_sort cmp xs = foldr (insert_sorted cmp) xs []"

text \<open>
  \<open>Array.prototype.find\<close> returns the first object that satisfies the predicate, or
  \<open>undefined\<close>; the object is returned as its position in the array.
\<close>

fun find_ref :: "('a \<Rightarrow> bool) \<Rightarrow> 'a list \<Rightarrow> nat option" where
  "find_ref P [] = None"
| "find_ref P (x # xs) = (if P x then Some 0 else map_option Suc (find_ref P xs))"

section \<open>Swiss-system pairing\<close>

text \<open>
  \<open>state.comparisonHistory.slice(-k).some(h => (h.a === a.id && h.b === b.id) ||
  (h.a === b.id && h.b === a.id))\<close>.
\<close>

definition recentlyCompared :: "comparison list \<Rightarrow> nat \<Rightarrow> photo \<Rightarrow> photo \<Rightarrow> bool" where
  "recentlyCompared history k pa pb =
     list_ex (\<lambda>h. (rec_a h = photo_id pa \<and> rec_b h = photo_id pb)
                 \<or> (rec_a h = photo_id pb \<and> rec_b h = photo_id pa))
       (drop (length history - k) history)"

text \<open>
  The nested loop over \<open>i < j\<close> of getNextPair, which returns at the first pair that was
  not compared recently and falls through when there is none.
\<close>

fun first_fresh_pair :: "(nat \<Rightarrow> nat \<Rightarrow> bool) \<Rightarrow> nat list \<Rightarrow> (nat \<times> nat) option" where
  "first_fresh_pair recent [] = None"
| "first_fresh_pair recent (x # rest) =
     (case find (\<lambda>y. \<not> recent x y) rest of
        Some y \<Rightarrow> Some (x, y)
      | None \<Rightarrow> first_fresh_pair recent rest)"

text \<open>The comparator of \<open>sortedByComparisons\<close>, on two candidates.\<close>

definition compareByComparisons :: "photo \<Rightarrow> photo \<Rightarrow> real" where
  "compareByComparisons pa pb =
     (let compDiff = int (comparisons_or0 pa) - int (comparisons_or0 pb)
      in if compDiff \<noteq> 0 then real_of_int compDiff else elo pb - elo pa)"

definition sortedByComparisons :: "photo list \<Rightarrow> nat list" where
  "sortedByComparisons cs =
     js_sort (\<lambda>i j. compareByComparisons (cs ! i) (cs ! j)) [0..<length cs]"

definition underCompared :: "photo list \<Rightarrow> nat list" where
  "underCompared cs =
     (let minComparisons = comparisons_or0 (cs ! (sortedByComparisons cs ! 0))
      in filter (\<lambda>p. comparisons_or0 (cs ! p) \<le> minComparisons + 1) (sortedByComparisons cs))"

definition sortedByElo :: "photo list \<Rightarrow> nat list" where
  "sortedByElo cs = js_sort (\<lambda>i j. elo (cs ! j) - elo (cs ! i)) [0..<length cs]"

text \<open>
  getNextPair reads \<open>Math.random()\<close> in three places. The two sorts with the comparator
  \<open>() => Math.random() - 0.5\<close> are the parameters \<open>shuffle1\<close> and \<open>shuffle2\<close>, which
  give the order in which the sort leaves the array; \<open>rnd\<close> is the value drawn for
  \<open>startOffset\<close>. The result is the pair of candidate objects, as positions in
  \<open>state.candidates\<close>, or \<open>None\<close> for \<open>null\<close>. The function has three stages after
  its guard, each of which returns the pair it finds.
\<close>

text \<open>First stage: a pair of under-compared candidates not compared in the last 10 entries.\<close>

definition underComparedPair :: "(nat list \<Rightarrow> nat list) \<Rightarrow> state \<Rightarrow> (nat \<times> nat) option" where
  "underComparedPair shuffle1 st =
     (let cs = candidates st in
      if length (underCompared cs) \<ge> 2
      then (let shuffled = shuffle1 (underCompared cs)
            in first_fresh_pair
                 (\<lambda>i j. recentlyCompared (comparisonHistory st) 10 (cs ! i) (cs ! j)) shuffled)
      else None)"

text \<open>Second stage: two neighbours by rating not compared in the last 15 entries, scanning
  from a random offset.\<close>

definition adjacentPair :: "real \<Rightarrow> state \<Rightarrow> (nat \<times> nat) option" where
  "adjacentPair rnd st =
     (let cs = candidates st;
          byElo = sortedByElo cs;
          startOffset = nat \<lfloor>rnd * real (length byElo - 1)\<rfloor>;
          idxs = map (\<lambda>i. (i + startOffset) mod (length byElo - 1)) [0..<length byElo - 1]
      in case find (\<lambda>idx. \<not> recentlyCompared (comparisonHistory st) 15
                               (cs ! (byElo ! idx)) (cs ! (byElo ! (idx + 1)))) idxs of
           Some idx \<Rightarrow> Some (byElo ! idx, byElo ! (idx + 1))
         | None \<Rightarrow> None)"

text \<open>Last resort: the first two of a shuffle of all candidates.\<close>

definition randomPair :: "(nat list \<Rightarrow> nat list) \<Rightarrow> state \<Rightarrow> nat \<times> nat" where
  "randomPair shuffle2 st =
     (let shuffledAll = shuffle2 [0..<length (candidates st)]
      in (shuffledAll ! 0, shuffledAll ! 1))"

definition getNextPair ::
  "(nat list \<Rightarrow> nat list) \<Rightarrow> real \<Rightarrow> (nat list \<Rightarrow> nat list) \<Rightarrow> state \<Rightarrow> (nat \<times> nat) option" where
  "getNextPair shuffle1 rnd shuffle2 st =
     (if length (candidates st) < 2 then None
      else
        case underComparedPair shuffle1 st of
          Some pair \<Rightarrow> Some pair
        | None \<Rightarrow>
            (case adjacentPair rnd st of
               Some pair \<Rightarrow> Some pair
             | None \<Rightarrow> Some (randomPair shuffle2 st)))"

text \<open>A shuffle leaves a permutation of the array it is given.\<close>

definition is_shuffle :: "(nat list \<Rightarrow> nat list) \<Rightarrow> bool" where
  "is_shuffle f = (\<forall>xs. mset (f xs) = mset xs)"

section \<open>Confidence\<close>

text \<open>The test of two snapshots in calculateConfidence: same size, and every id of the
  current set in the previous one.\<close>

definition identicalSets :: "string set \<Rightarrow> string set \<Rightarrow> bool" where
  "identicalSets prevSet currSet =
     (if card prevSet \<noteq> card currSet then False else (\<forall>i\<in>currSet. i \<in> prevSet))"

text \<open>The loop \<open>for (let i = 1; i < previousTopNSets.length; i++)\<close> over consecutive snapshots.\<close>

fun stableCount :: "string set list \<Rightarrow> nat" where
  "stableCount (prevSet # currSet # rest) =
     (if identicalSets prevSet currSet then 1 else 0) + stableCount (currSet # rest)"
| "stableCount _ = 0"

text \<open>The set of the ids of the first \<open>targetN\<close> candidates by descending rating.\<close>

definition currentTopNIds :: "state \<Rightarrow> string set" where
  "currentTopNIds st =
     (let targetN = min (targetCount st) (int (length (candidates st)));
          byElo = js_sort (\<lambda>pa pb. elo pb - elo pa) (candidates st)
      in set (map photo_id (take (nat targetN) byElo)))"

text \<open>
  calculateConfidence reads \<open>state\<close> and updates the module variable
  \<open>previousTopNSets\<close>; the model takes the variable and returns it with the result.
  \<open>Math.round\<close> is \<open>round\<close>: the nearest integer, halves upwards.
\<close>

definition calculateConfidence :: "state \<Rightarrow> string set list \<Rightarrow> int \<times> string set list" where
  "calculateConfidence st previousTopNSets =
     (let n = length (candidates st);
          targetN = min (targetCount st) (int n)
      in if targetN < 2 \<or> comparisonsCompleted st < 2 then (0, previousTopNSets)
         else
           (let pushed = previousTopNSets @ [currentTopNIds st];
                history = (if length pushed > 10 then tl pushed else pushed)
            in if length history < 3
               then (min 20 (comparisonsCompleted st * 5), history)
               else
                 (let stabilityRatio = real (stableCount history) / real (length history - 1);
                      comparedCount = length (filter (\<lambda>p. comparisons_or0 p \<ge> 1) (candidates st));
                      coverageRatio = real comparedCount / real n;
                      baseConfidence = coverageRatio * 30;
                      stabilityConfidence = stabilityRatio * 70;
                      confidence = baseConfidence + stabilityConfidence
                  in (min 100 (round confidence), history))))"

text \<open>A run of calls of calculateConfidence, each on the state of its moment.\<close>

fun confidence_run :: "state list \<Rightarrow> string set list \<Rightarrow> string set list" where
  "confidence_run [] previousTopNSets = previousTopNSets"
| "confidence_run (st # sts) previousTopNSets =
     confidence_run sts (snd (calculateConfidence st previousTopNSets))"

section \<open>Resolving and undoing a comparison\<close>

text \<open>
  confirmComparison, skipComparison and undoComparison, without their closing calls of
  showNextComparison and scheduleSave, which choose and render the next pair and save the
  session, and assign neither ratings, comparison counts nor the history. Destructuring
  \<open>state.currentPair\<close> when it is \<open>null\<close> throws: the result is \<open>None\<close>.
  \<open>winnerId\<close> is the first element of the selection, \<open>undefined\<close> when it is empty.
\<close>

definition confirmComparison :: "state \<Rightarrow> state option" where
  "confirmComparison st =
     (case currentPair st of
        None \<Rightarrow> None
      | Some (photoA, photoB) \<Rightarrow>
          (let cs = candidates st;
               winnerId = (case currentSelection st of [] \<Rightarrow> None | x # _ \<Rightarrow> Some x);
               entry = \<lparr>rec_a = photo_id (cs ! photoA), rec_b = photo_id (cs ! photoB),
                        rec_winner = winnerId,
                        prevEloA = elo (cs ! photoA), prevEloB = elo (cs ! photoB),
                        prevCompA = comparisons (cs ! photoA),
                        prevCompB = comparisons (cs ! photoB)\<rparr>;
               winner = find_ref (\<lambda>p. Some (photo_id p) = winnerId) cs;
               loser = find_ref (\<lambda>p. Some (photo_id p) \<noteq> winnerId
                                     \<and> (photo_id p = photo_id (cs ! photoA)
                                          \<or> photo_id p = photo_id (cs ! photoB))) cs;
               cs' = (case winner of
                        None \<Rightarrow> cs
                      | Some w \<Rightarrow> (case loser of None \<Rightarrow> cs | Some l \<Rightarrow> updateEloRatings cs w l))
           in Some (st\<lparr>comparisonHistory := comparisonHistory st @ [entry],
                       candidates := cs',
                       comparisonsCompleted := comparisonsCompleted st + 1\<rparr>)))"

definition skipComparison :: "state \<Rightarrow> state option" where
  "skipComparison st =
     (case currentPair st of
        None \<Rightarrow> None
      | Some (photoA, photoB) \<Rightarrow>
          (let cs = candidates st;
               entry = \<lparr>rec_a = photo_id (cs ! photoA), rec_b = photo_id (cs ! photoB),
                        rec_winner = None,
                        prevEloA = elo (cs ! photoA), prevEloB = elo (cs ! photoB),
                        prevCompA = comparisons (cs ! photoA),
                        prevCompB = comparisons (cs ! photoB)\<rparr>
           in Some (st\<lparr>comparisonHistory := comparisonHistory st @ [entry],
                       candidates := updateEloTie cs photoA photoB,
                       comparisonsCompleted := comparisonsCompleted st + 1\<rparr>)))"

definition undoComparison :: "state \<Rightarrow> state" where
  "undoComparison st =
     (if length (comparisonHistory st) = 0 then st
      else
        (let lastComparison = last (comparisonHistory st);
             cs = candidates st;
             photoA = find_ref (\<lambda>p. photo_id p = rec_a lastComparison) cs;
             photoB = find_ref (\<lambda>p. photo_id p = rec_b lastComparison) cs;
             c1 = (case photoA of
                     None \<Rightarrow> cs
                   | Some i \<Rightarrow> cs[i := (cs ! i)\<lparr>elo := prevEloA lastComparison,
                                                 comparisons := prevCompA lastComparison\<rparr>]);
             c2 = (case photoB of
                     None \<Rightarrow> c1
                   | Some j \<Rightarrow> c1[j := (c1 ! j)\<lparr>elo := prevEloB lastComparison,
                                                 comparisons := prevCompB lastComparison\<rparr>])
         in st\<lparr>comparisonHistory := butlast (comparisonHistory st),
                candidates := c2,
                comparisonsCompleted := comparisonsCompleted st - 1\<rparr>))"

section \<open>Fingerprint distance and clustering\<close>

text \<open>The values a JavaScript number takes in fingerprintDistance.\<close>

datatype jsnum = Finite real | Infinity | NaN

text \<open>\<open>d <= t\<close> and \<open>d < t\<close> for a finite \<open>t\<close>: false for \<open>Infinity\<close> and for \<open>NaN\<close>.\<close>

fun js_le :: "jsnum \<Rightarrow> real \<Rightarrow> bool" where
  "js_le (Finite d) t = (d \<le> t)"
| "js_le Infinity t = False"
| "js_le NaN t = False"

fun js_less :: "jsnum \<Rightarrow> real \<Rightarrow> bool" where
  "js_less (Finite d) t = (d < t)"
| "js_less Infinity t = False"
| "js_less NaN t = False"

text \<open>The summing loop of fingerprintDistance, on two arrays of the same length.\<close>

fun distance_loop :: "fingerprint \<Rightarrow> fingerprint \<Rightarrow> int \<Rightarrow> int" where
  "distance_loop (x # xs) (y # ys) sum_sq =
     (let diff = uint x - uint y in distance_loop xs ys (sum_sq + diff * diff))"
| "distance_loop _ _ sum_sq = sum_sq"

text \<open>
  A typed array is truthy even when empty, so two empty fingerprints pass the guard and
  the result is \<open>Math.sqrt(0 / 0)\<close>, which is \<open>NaN\<close>.
\<close>

definition fingerprintDistance :: "fingerprint option \<Rightarrow> fingerprint option \<Rightarrow> jsnum" where
  "fingerprintDistance fp1 fp2 =
     (case fp1 of
        None \<Rightarrow> Infinity
      | Some xs \<Rightarrow>
          (case fp2 of
             None \<Rightarrow> Infinity
           | Some ys \<Rightarrow>
               if length xs \<noteq> length ys then Infinity
               else if length xs = 0 then NaN
               else Finite (sqrt (real_of_int (distance_loop xs ys 0) / real (length xs)))))"

text \<open>
  createFingerprint returns the cached fingerprint of the photo, or computes one and
  caches it, or returns \<open>null\<close> when the image cannot be read. \<open>compute\<close> stands for
  reading the file and computeImageFingerprint (image decoding, outside this model).
\<close>

definition createFingerprint ::
  "(photo \<Rightarrow> fingerprint option) \<Rightarrow> (string \<rightharpoonup> fingerprint) \<Rightarrow> photo
     \<Rightarrow> fingerprint option \<times> (string \<rightharpoonup> fingerprint)" where
  "createFingerprint compute cache p =
     (case cache (photo_id p) of
        Some fp \<Rightarrow> (Some fp, cache)
      | None \<Rightarrow>
          (case compute p of
             Some fp \<Rightarrow> (Some fp, cache(photo_id p \<mapsto> fp))
           | None \<Rightarrow> (None, cache)))"

text \<open>The loop of buildClusters over \<open>photos[1..]\<close>; progress display and pauses are left out.\<close>

fun buildClusters_loop ::
  "(photo \<Rightarrow> fingerprint option) \<Rightarrow> real \<Rightarrow> photo list
     \<Rightarrow> (string \<rightharpoonup> fingerprint) \<Rightarrow> photo list list \<Rightarrow> photo list \<Rightarrow> fingerprint option
     \<Rightarrow> (string \<rightharpoonup> fingerprint) \<times> photo list list \<times> photo list" where
  "buildClusters_loop compute threshold [] cache cls currentCluster prevFp =
     (cache, cls, currentCluster)"
| "buildClusters_loop compute threshold (p # ps) cache cls currentCluster prevFp =
     (let (currFp, cache') = createFingerprint compute cache p;
          distance = fingerprintDistance prevFp currFp
      in if js_le distance threshold
         then buildClusters_loop compute threshold ps cache' cls (currentCluster @ [p]) currFp
         else buildClusters_loop compute threshold ps cache' (cls @ [currentCluster]) [p] currFp)"

definition buildClusters :: "(photo \<Rightarrow> fingerprint option) \<Rightarrow> state \<Rightarrow> state" where
  "buildClusters compute st =
     (case allPhotos st of
        [] \<Rightarrow> st
      | p0 # ps \<Rightarrow>
          (let (prevFp, cache0) = createFingerprint compute (clusterFingerprints st) p0;
               (cache, cls, currentCluster) =
                  buildClusters_loop compute (clusterThreshold st) ps cache0 [] [p0] prevFp;
               cls' = (if length currentCluster > 0 then cls @ [currentCluster] else cls)
           in st\<lparr>clusters := cls', clusterFingerprints := cache\<rparr>))"

text \<open>The loop of recluster; \<open>prev\<close> is \<open>photos[i - 1]\<close>.\<close>

fun recluster_loop ::
  "(string \<rightharpoonup> fingerprint) \<Rightarrow> real \<Rightarrow> photo \<Rightarrow> photo list
     \<Rightarrow> photo list list \<Rightarrow> photo list \<Rightarrow> photo list list \<times> photo list" where
  "recluster_loop fps threshold prev [] cls currentCluster = (cls, currentCluster)"
| "recluster_loop fps threshold prev (p # ps) cls currentCluster =
     (let prevFp = fps (photo_id prev);
          currFp = fps (photo_id p);
          distance = fingerprintDistance prevFp currFp
      in if js_le distance threshold
         then recluster_loop fps threshold p ps cls (currentCluster @ [p])
         else recluster_loop fps threshold p ps (cls @ [currentCluster]) [p])"

definition recluster :: "state \<Rightarrow> state" where
  "recluster st =
     (case allPhotos st of
        [] \<Rightarrow> st
      | p0 # ps \<Rightarrow>
          (let (cls, currentCluster) =
                  recluster_loop (clusterFingerprints st) (clusterThreshold st) p0 ps [] [p0];
               cls' = (if length currentCluster > 0 then cls @ [currentCluster] else cls)
           in st\<lparr>clusters := cls'\<rparr>))"

section \<open>Candidates that differ in rating and count only\<close>

text \<open>\<open>q\<close> is \<open>p\<close> but for its rating and its comparison count.\<close>

definition ratings_apart :: "photo \<Rightarrow> photo \<Rightarrow> bool" where
  "ratings_apart p q = (q\<lparr>elo := elo p, comparisons := comparisons p\<rparr> = p)"

section \<open>A session with three photos\<close>

text \<open>
  Three photos A, B and C at the default rating and no comparisons, all of them
  candidates, with A and B on screen and A selected.
\<close>

definition photoA :: photo where
  "photoA = \<lparr>photo_id = ''A'', elo = 1500, comparisons = Some 0\<rparr>"

definition photoB :: photo where
  "photoB = \<lparr>photo_id = ''B'', elo = 1500, comparisons = Some 0\<rparr>"

definition photoC :: photo where
  "photoC = \<lparr>photo_id = ''C'', elo = 1500, comparisons = Some 0\<rparr>"

definition session0 :: state where
  "session0 =
     \<lparr>allPhotos = [photoA, photoB, photoC],
      candidates = [photoA, photoB, photoC],
      targetCount = 2,
      clusters = [],
      clusterFingerprints = [''A'' \<mapsto> [10], ''B'' \<mapsto> [12], ''C'' \<mapsto> [14]],
      clusterThreshold = 15,
      comparisonHistory = [],
      comparisonsCompleted = 0,
      currentPair = Some (0, 1),
      currentSelection = [''A'']\<rparr>"

text \<open>The session after A has beaten B.\<close>

definition session1 :: state where
  "session1 =
     session0
       \<lparr>candidates :=
          [\<lparr>photo_id = ''A'', elo = 1516, comparisons = Some 1\<rparr>,
           \<lparr>photo_id = ''B'', elo = 1484, comparisons = Some 1\<rparr>,
           \<lparr>photo_id = ''C'', elo = 1500, comparisons = Some 0\<rparr>],
        comparisonHistory :=
          [\<lparr>rec_a = ''A'', rec_b = ''B'', rec_winner = Some ''A'',
            prevEloA = 1500, prevEloB = 1500, prevCompA = Some 0, prevCompB = Some 0\<rparr>],
        comparisonsCompleted := 1\<rparr>"

section \<open>Properties of the Elo update\<close>

lemma expectedScore_equal: "expectedScore r r = 1 / 2"
  by (simp add: expectedScore_def)

lemma expectedScore_sum: "expectedScore x y + expectedScore y x = 1"
proof -
  define t where "t = (10::real) powr ((y - x) / 400)"
  have tpos: "0 < t" by (simp add: t_def)
  have e: "(x - y) / 400 = - ((y - x) / 400)"
    by (simp add: field_simps)
  have "(10::real) powr ((x - y) / 400) = 10 powr (- ((y - x) / 400))"
    by (simp only: e)
  also have "\<dots> = 1 / t"
    by (simp add: t_def powr_minus_divide)
  finally have inv: "(10::real) powr ((x - y) / 400) = 1 / t" .
  have "expectedScore x y + expectedScore y x = 1 / (1 + t) + 1 / (1 + 1 / t)"
    by (simp add: expectedScore_def t_def [symmetric] inv)
  also have "\<dots> = 1"
    using tpos by (simp add: field_simps)
  finally show ?thesis .
qed

lemma updateEloRatings_length: "length (updateEloRatings cs w l) = length cs"
  by (simp add: updateEloRatings_def Let_def)

lemma updateEloTie_length: "length (updateEloTie cs pa pb) = length cs"
  by (simp add: updateEloTie_def Let_def)

lemma updateEloRatings_winner:
  assumes "w < length cs" "l < length cs" "w \<noteq> l"
  shows "updateEloRatings cs w l ! w =
           (cs ! w)\<lparr>elo := elo (cs ! w) + ELO_K * (1 - expectedScore (elo (cs ! w)) (elo (cs ! l))),
                     comparisons := Some (comparisons_or0 (cs ! w) + 1)\<rparr>"
  using assms by (simp add: updateEloRatings_def Let_def comparisons_or0_def)

lemma updateEloRatings_loser:
  assumes "w < length cs" "l < length cs" "w \<noteq> l"
  shows "updateEloRatings cs w l ! l =
           (cs ! l)\<lparr>elo := elo (cs ! l) + ELO_K * (0 - expectedScore (elo (cs ! l)) (elo (cs ! w))),
                     comparisons := Some (comparisons_or0 (cs ! l) + 1)\<rparr>"
  using assms by (simp add: updateEloRatings_def Let_def comparisons_or0_def)

lemma updateEloRatings_other:
  assumes "k \<noteq> w" "k \<noteq> l"
  shows "updateEloRatings cs w l ! k = cs ! k"
  using assms by (simp add: updateEloRatings_def Let_def)

lemma updateEloTie_first:
  assumes "pa < length cs" "pb < length cs" "pa \<noteq> pb"
  shows "updateEloTie cs pa pb ! pa =
           (cs ! pa)\<lparr>elo := elo (cs ! pa) + ELO_K * (0.5 - expectedScore (elo (cs ! pa)) (elo (cs ! pb))),
                      comparisons := Some (comparisons_or0 (cs ! pa) + 1)\<rparr>"
  using assms by (simp add: updateEloTie_def Let_def comparisons_or0_def)

lemma updateEloTie_second:
  assumes "pa < length cs" "pb < length cs" "pa \<noteq> pb"
  shows "updateEloTie cs pa pb ! pb =
           (cs ! pb)\<lparr>elo := elo (cs ! pb) + ELO_K * (0.5 - expectedScore (elo (cs ! pb)) (elo (cs ! pa))),
                      comparisons := Some (comparisons_or0 (cs ! pb) + 1)\<rparr>"
  using assms by (simp add: updateEloTie_def Let_def comparisons_or0_def)

lemma updateEloTie_other:
  assumes "k \<noteq> pa" "k \<noteq> pb"
  shows "updateEloTie cs pa pb ! k = cs ! k"
  using assms by (simp add: updateEloTie_def Let_def)

text \<open>
  Claim C1. For two different candidates of the pool, updateEloRatings adds
  \<open>32 * (1 - expected(winner, loser))\<close> to the winner's rating and
  \<open>32 * (0 - expected(loser, winner))\<close> to the loser's, where
  \<open>expected(a, b) = 1 / (1 + 10 ^ ((b.rating - a.rating) / 400))\<close>, and raises both
  comparison counts by one. Two candidates at 1500 with count 0 end at 1516 and 1484,
  both with count 1.
\<close>

theorem C1_updateEloRatings_rule:
  assumes "w < length cs" "l < length cs" "w \<noteq> l"
  shows "elo (updateEloRatings cs w l ! w) =
           elo (cs ! w) + 32 * (1 - 1 / (1 + 10 powr ((elo (cs ! l) - elo (cs ! w)) / 400)))
       \<and> elo (updateEloRatings cs w l ! l) =
           elo (cs ! l) + 32 * (0 - 1 / (1 + 10 powr ((elo (cs ! w) - elo (cs ! l)) / 400)))
       \<and> comparisons (updateEloRatings cs w l ! w) = Some (comparisons_or0 (cs ! w) + 1)
       \<and> comparisons (updateEloRatings cs w l ! l) = Some (comparisons_or0 (cs ! l) + 1)
       \<and> photo_id (updateEloRatings cs w l ! w) = photo_id (cs ! w)
       \<and> photo_id (updateEloRatings cs w l ! l) = photo_id (cs ! l)
       \<and> (elo (cs ! w) = 1500 \<and> elo (cs ! l) = 1500
            \<and> comparisons (cs ! w) = Some 0 \<and> comparisons (cs ! l) = Some 0
          \<longrightarrow> elo (updateEloRatings cs w l ! w) = 1516
            \<and> elo (updateEloRatings cs w l ! l) = 1484
            \<and> comparisons (updateEloRatings cs w l ! w) = Some 1
            \<and> comparisons (updateEloRatings cs w l ! l) = Some 1)"
  using assms
  by (simp add: updateEloRatings_winner updateEloRatings_loser expectedScore_def ELO_K_def
      comparisons_or0_def)

theorem C1_updateEloRatings_witness:
  "elo (updateEloRatings
          [\<lparr>photo_id = ''photo-0'', elo = 1500, comparisons = Some 0\<rparr>,
           \<lparr>photo_id = ''photo-1'', elo = 1500, comparisons = Some 0\<rparr>] 0 1 ! 0) = 1516
   \<and> elo (updateEloRatings
          [\<lparr>photo_id = ''photo-0'', elo = 1500, comparisons = Some 0\<rparr>,
           \<lparr>photo_id = ''photo-1'', elo = 1500, comparisons = Some 0\<rparr>] 0 1 ! 1) = 1484
   \<and> comparisons (updateEloRatings
          [\<lparr>photo_id = ''photo-0'', elo = 1500, comparisons = Some 0\<rparr>,
           \<lparr>photo_id = ''photo-1'', elo = 1500, comparisons = Some 0\<rparr>] 0 1 ! 0) = Some 1
   \<and> comparisons (updateEloRatings
          [\<lparr>photo_id = ''photo-0'', elo = 1500, comparisons = Some 0\<rparr>,
           \<lparr>photo_id = ''photo-1'', elo = 1500, comparisons = Some 0\<rparr>] 0 1 ! 1) = Some 1"
  using C1_updateEloRatings_rule
    [of 0 "[\<lparr>photo_id = ''photo-0'', elo = 1500, comparisons = Some 0\<rparr>,
            \<lparr>photo_id = ''photo-1'', elo = 1500, comparisons = Some 0\<rparr>]" 1]
  by (simp add: comparisons_or0_def)

text \<open>
  Claim C10. In exact real arithmetic the two expected scores add up to one, so both
  updateEloRatings and updateEloTie leave the sum of the two candidates' ratings
  unchanged; updateEloTie on two equally rated candidates changes neither rating.
\<close>

theorem C10_rating_sum_conserved:
  assumes "pa < length cs" "pb < length cs" "pa \<noteq> pb"
  shows "expectedScore (elo (cs ! pa)) (elo (cs ! pb))
           + expectedScore (elo (cs ! pb)) (elo (cs ! pa)) = 1
       \<and> elo (updateEloRatings cs pa pb ! pa) + elo (updateEloRatings cs pa pb ! pb)
           = elo (cs ! pa) + elo (cs ! pb)
       \<and> elo (updateEloTie cs pa pb ! pa) + elo (updateEloTie cs pa pb ! pb)
           = elo (cs ! pa) + elo (cs ! pb)
       \<and> (elo (cs ! pa) = elo (cs ! pb)
          \<longrightarrow> elo (updateEloTie cs pa pb ! pa) = elo (cs ! pa)
            \<and> elo (updateEloTie cs pa pb ! pb) = elo (cs ! pb))"
proof -
  let ?ea = "expectedScore (elo (cs ! pa)) (elo (cs ! pb))"
  let ?eb = "expectedScore (elo (cs ! pb)) (elo (cs ! pa))"
  have s: "?ea + ?eb = 1"
    by (rule expectedScore_sum)
  have win: "elo (updateEloRatings cs pa pb ! pa) + elo (updateEloRatings cs pa pb ! pb)
               = elo (cs ! pa) + elo (cs ! pb) + ELO_K * (1 - (?ea + ?eb))"
    using assms by (simp add: updateEloRatings_winner updateEloRatings_loser algebra_simps)
  have tie: "elo (updateEloTie cs pa pb ! pa) + elo (updateEloTie cs pa pb ! pb)
               = elo (cs ! pa) + elo (cs ! pb) + ELO_K * (1 - (?ea + ?eb))"
    using assms by (simp add: updateEloTie_first updateEloTie_second algebra_simps)
  have eq: "elo (cs ! pa) = elo (cs ! pb) \<Longrightarrow>
              elo (updateEloTie cs pa pb ! pa) = elo (cs ! pa)
            \<and> elo (updateEloTie cs pa pb ! pb) = elo (cs ! pb)"
    using assms by (simp add: updateEloTie_first updateEloTie_second expectedScore_equal)
  show ?thesis
    using s win tie eq by simp
qed

theorem C10_rating_sum_witness:
  "elo (updateEloRatings
          [\<lparr>photo_id = ''photo-0'', elo = 1500, comparisons = Some 0\<rparr>,
           \<lparr>photo_id = ''photo-1'', elo = 1400, comparisons = None\<rparr>] 0 1 ! 0)
     + elo (updateEloRatings
          [\<lparr>photo_id = ''photo-0'', elo = 1500, comparisons = Some 0\<rparr>,
           \<lparr>photo_id = ''photo-1'', elo = 1400, comparisons = None\<rparr>] 0 1 ! 1) = 2900
   \<and> elo (updateEloTie
          [\<lparr>photo_id = ''photo-0'', elo = 1500, comparisons = Some 0\<rparr>,
           \<lparr>photo_id = ''photo-1'', elo = 1400, comparisons = None\<rparr>] 0 1 ! 0)
     + elo (updateEloTie
          [\<lparr>photo_id = ''photo-0'', elo = 1500, comparisons = Some 0\<rparr>,
           \<lparr>photo_id = ''photo-1'', elo = 1400, comparisons = None\<rparr>] 0 1 ! 1) = 2900"
  using C10_rating_sum_conserved
    [of 0 "[\<lparr>photo_id = ''photo-0'', elo = 1500, comparisons = Some 0\<rparr>,
            \<lparr>photo_id = ''photo-1'', elo = 1400, comparisons = None\<rparr>]" 1]
  by simp

section \<open>Properties of the fingerprint distance\<close>

lemma distance_loop_same: "distance_loop xs xs acc = acc"
  by (induction xs arbitrary: acc) simp_all

lemma distance_loop_commute: "distance_loop xs ys acc = distance_loop ys xs acc"
proof (induction xs arbitrary: ys acc)
  case Nil
  show ?case by (cases ys) simp_all
next
  case (Cons x xs)
  show ?case
  proof (cases ys)
    case Nil
    then show ?thesis by simp
  next
    case (Cons y ys')
    have "(uint x - uint y) * (uint x - uint y) = (uint y - uint x) * (uint y - uint x)"
      by (simp add: algebra_simps)
    with Cons Cons.IH show ?thesis by (simp add: Let_def)
  qed
qed

lemma distance_loop_sum:
  "length xs = length ys \<Longrightarrow>
   distance_loop xs ys acc = acc + (\<Sum>i<length xs. (uint (xs ! i) - uint (ys ! i))\<^sup>2)"
proof (induction xs ys arbitrary: acc rule: list_induct2)
  case Nil
  then show ?case by simp
next
  case (Cons x xs y ys)
  show ?case
    by (simp add: Let_def Cons.IH sum.lessThan_Suc_shift del: sum.lessThan_Suc)
      (simp add: power2_eq_square)
qed

lemma byte_diff_sq: "(uint (x :: 8 word) - uint (y :: 8 word))\<^sup>2 \<le> 65025"
proof -
  have x: "0 \<le> uint x" "uint x \<le> 255"
    using uint_lt2p [of x] by simp_all
  have y: "0 \<le> uint y" "uint y \<le> 255"
    using uint_lt2p [of y] by simp_all
  have "\<bar>uint x - uint y\<bar> \<le> 255"
    using x y by linarith
  then have "\<bar>uint x - uint y\<bar>\<^sup>2 \<le> 255\<^sup>2"
    by (rule power_mono) simp
  then show ?thesis by simp
qed

lemma sq_sum_bounds:
  "0 \<le> (\<Sum>i<n. (uint (xs ! i :: 8 word) - uint (ys ! i :: 8 word))\<^sup>2)"
  "(\<Sum>i<n. (uint (xs ! i :: 8 word) - uint (ys ! i :: 8 word))\<^sup>2) \<le> 65025 * int n"
proof -
  show "0 \<le> (\<Sum>i<n. (uint (xs ! i) - uint (ys ! i))\<^sup>2)"
    by (rule sum_nonneg) simp
  have "(\<Sum>i<n. (uint (xs ! i) - uint (ys ! i))\<^sup>2) \<le> (\<Sum>i<n. 65025)"
    by (rule sum_mono) (rule byte_diff_sq)
  then show "(\<Sum>i<n. (uint (xs ! i) - uint (ys ! i))\<^sup>2) \<le> 65025 * int n"
    by simp
qed

lemma rms_bounds:
  assumes "0 < n" "0 \<le> s" "s \<le> 65025 * int n"
  shows "0 \<le> sqrt (real_of_int s / real n)" "sqrt (real_of_int s / real n) \<le> 255"
proof -
  show "0 \<le> sqrt (real_of_int s / real n)"
    using assms by simp
  have "real_of_int s \<le> 65025 * real n"
    using assms(3) by (metis of_int_le_iff of_int_mult of_int_numeral of_int_of_nat_eq)
  then have "real_of_int s / real n \<le> 65025"
    using assms(1) by (simp add: field_simps)
  then show "sqrt (real_of_int s / real n) \<le> 255"
    by (intro real_le_lsqrt) simp_all
qed


lemma distance_loop_ge: "acc \<le> distance_loop xs ys acc"
proof (induction xs ys acc rule: distance_loop.induct)
  case (1 x xs y ys sum_sq)
  have "sum_sq \<le> sum_sq + (uint x - uint y) * (uint x - uint y)"
    by simp
  also have "\<dots> \<le> distance_loop xs ys (sum_sq + (uint x - uint y) * (uint x - uint y))"
    using 1 by (simp add: Let_def)
  finally show ?case
    by (simp add: Let_def)
qed simp_all

lemma distance_loop_pos:
  "length xs = length ys \<Longrightarrow> xs \<noteq> ys \<Longrightarrow> acc < distance_loop xs ys acc"
proof (induction xs ys arbitrary: acc rule: list_induct2)
  case Nil
  then show ?case by simp
next
  case (Cons x xs y ys)
  show ?case
  proof (cases "x = y")
    case True
    with Cons.prems have "xs \<noteq> ys" by simp
    with Cons.IH [of acc] True show ?thesis by (simp add: Let_def)
  next
    case False
    then have "uint x - uint y \<noteq> 0"
      by (simp add: word_uint_eq_iff)
    then have "0 < (uint x - uint y) * (uint x - uint y)"
      by (simp add: zero_less_mult_iff) linarith
    moreover have "acc + (uint x - uint y) * (uint x - uint y)
        \<le> distance_loop xs ys (acc + (uint x - uint y) * (uint x - uint y))"
      by (rule distance_loop_ge)
    ultimately show ?thesis by (simp add: Let_def)
  qed
qed

lemma fingerprintDistance_distinct:
  assumes "fp1 \<noteq> fp2"
  shows "\<not> js_le (fingerprintDistance fp1 fp2) 0"
proof (cases fp1)
  case None
  then show ?thesis by (simp add: fingerprintDistance_def)
next
  case (Some xs)
  show ?thesis
  proof (cases fp2)
    case None
    with Some show ?thesis by (simp add: fingerprintDistance_def)
  next
    case (Some ys)
    note ys = this
    show ?thesis
    proof (cases "length xs = length ys")
      case False
      with \<open>fp1 = Some xs\<close> ys show ?thesis by (simp add: fingerprintDistance_def)
    next
      case True
      from assms \<open>fp1 = Some xs\<close> ys have ne: "xs \<noteq> ys" by simp
      with True have len: "length xs \<noteq> 0" by auto
      have "0 < distance_loop xs ys 0"
        using True ne by (rule distance_loop_pos)
      then have "0 < sqrt (real_of_int (distance_loop xs ys 0) / real (length xs))"
        using len by simp
      with \<open>fp1 = Some xs\<close> ys True len show ?thesis
        by (simp add: fingerprintDistance_def)
    qed
  qed
qed

text \<open>Two empty arrays pass the guard of fingerprintDistance and give \<open>NaN\<close>.\<close>

lemma fingerprintDistance_empty: "fingerprintDistance (Some []) (Some []) = NaN"
  by (simp add: fingerprintDistance_def)

text \<open>
  Claim C7. The distance of a fingerprint to itself is 0; the distance is symmetric; it is
  \<open>Infinity\<close> when an argument is missing or the lengths differ; otherwise it is the
  root of the mean of the squared differences over all positions, between 0 and 255.
  A fingerprint has \<open>size * size\<close> bytes with \<open>size = 8\<close>, so it is not empty; on two
  empty arrays the function divides 0 by 0.
\<close>

theorem C7_fingerprintDistance:
  "(fp \<noteq> [] \<longrightarrow> fingerprintDistance (Some fp) (Some fp) = Finite 0)
   \<and> fingerprintDistance fp1 fp2 = fingerprintDistance fp2 fp1
   \<and> fingerprintDistance None fp2 = Infinity
   \<and> fingerprintDistance fp1 None = Infinity
   \<and> (length xs \<noteq> length ys \<longrightarrow> fingerprintDistance (Some xs) (Some ys) = Infinity)
   \<and> (length xs = length ys \<and> xs \<noteq> [] \<longrightarrow>
        fingerprintDistance (Some xs) (Some ys)
          = Finite (sqrt (real_of_int (\<Sum>i<length xs. (uint (xs ! i) - uint (ys ! i))\<^sup>2)
                           / real (length xs)))
        \<and> 0 \<le> sqrt (real_of_int (\<Sum>i<length xs. (uint (xs ! i) - uint (ys ! i))\<^sup>2)
                           / real (length xs))
        \<and> sqrt (real_of_int (\<Sum>i<length xs. (uint (xs ! i) - uint (ys ! i))\<^sup>2)
                           / real (length xs)) \<le> 255)"
proof -
  have self: "fp \<noteq> [] \<Longrightarrow> fingerprintDistance (Some fp) (Some fp) = Finite 0"
    by (simp add: fingerprintDistance_def distance_loop_same)
  have sym: "fingerprintDistance fp1 fp2 = fingerprintDistance fp2 fp1"
    by (cases fp1; cases fp2)
      (auto simp: fingerprintDistance_def distance_loop_commute [of _ _ 0])
  have none1: "fingerprintDistance None fp2 = Infinity"
    by (simp add: fingerprintDistance_def)
  have none2: "fingerprintDistance fp1 None = Infinity"
    by (cases fp1) (simp_all add: fingerprintDistance_def)
  have differ: "length xs \<noteq> length ys \<Longrightarrow> fingerprintDistance (Some xs) (Some ys) = Infinity"
    by (simp add: fingerprintDistance_def)
  have rms: "fingerprintDistance (Some xs) (Some ys)
          = Finite (sqrt (real_of_int (\<Sum>i<length xs. (uint (xs ! i) - uint (ys ! i))\<^sup>2)
                           / real (length xs)))"
    if "length xs = length ys" "xs \<noteq> []"
    using that by (auto simp: fingerprintDistance_def distance_loop_sum)
  have lo: "0 \<le> sqrt (real_of_int (\<Sum>i<length xs. (uint (xs ! i) - uint (ys ! i))\<^sup>2)
                           / real (length xs))"
    if "xs \<noteq> []"
    using that by (intro rms_bounds sq_sum_bounds) simp
  have hi: "sqrt (real_of_int (\<Sum>i<length xs. (uint (xs ! i) - uint (ys ! i))\<^sup>2)
                           / real (length xs)) \<le> 255"
    if "xs \<noteq> []"
    using that by (intro rms_bounds sq_sum_bounds) simp
  show ?thesis
    using self sym none1 none2 differ rms lo hi by blast
qed

theorem C7_fingerprintDistance_witness:
  "fingerprintDistance (Some [3, 7]) (Some [3, 7]) = Finite 0
   \<and> fingerprintDistance (Some [3, 7]) (Some [3]) = Infinity
   \<and> fingerprintDistance (Some [0]) (Some [2]) = Finite 2"
  using C7_fingerprintDistance [where fp = "[3, 7]" and xs = "[3, 7]" and ys = "[3]"]
    C7_fingerprintDistance [where xs = "[0]" and ys = "[2]"]
  by simp

section \<open>Properties of the clustering\<close>

lemma buildClusters_loop_partition:
  "buildClusters_loop compute th ps cache cls cur prevFp = (cache', cls', cur') \<Longrightarrow>
   cur \<noteq> [] \<Longrightarrow> [] \<notin> set cls \<Longrightarrow>
   concat cls' @ cur' = concat cls @ cur @ ps \<and> cur' \<noteq> [] \<and> [] \<notin> set cls'"
proof (induction ps arbitrary: cache cls cur prevFp)
  case Nil
  then show ?case by simp
next
  case (Cons p ps)
  obtain currFp cache1 where cf: "createFingerprint compute cache p = (currFp, cache1)"
    by (cases "createFingerprint compute cache p")
  show ?case
  proof (cases "js_le (fingerprintDistance prevFp currFp) th")
    case True
    with Cons.prems(1) cf
    have "buildClusters_loop compute th ps cache1 cls (cur @ [p]) currFp = (cache', cls', cur')"
      by simp
    from Cons.IH [OF this] Cons.prems(3) show ?thesis by simp
  next
    case False
    with Cons.prems(1) cf
    have "buildClusters_loop compute th ps cache1 (cls @ [cur]) [p] currFp = (cache', cls', cur')"
      by simp
    from Cons.IH [OF this] Cons.prems(2,3) show ?thesis by simp
  qed
qed

lemma recluster_loop_partition:
  "recluster_loop fps th prev ps cls cur = (cls', cur') \<Longrightarrow>
   cur \<noteq> [] \<Longrightarrow> [] \<notin> set cls \<Longrightarrow>
   concat cls' @ cur' = concat cls @ cur @ ps \<and> cur' \<noteq> [] \<and> [] \<notin> set cls'"
proof (induction ps arbitrary: prev cls cur)
  case Nil
  then show ?case by simp
next
  case (Cons p ps)
  show ?case
  proof (cases "js_le (fingerprintDistance (fps (photo_id prev)) (fps (photo_id p))) th")
    case True
    with Cons.prems(1)
    have "recluster_loop fps th p ps cls (cur @ [p]) = (cls', cur')"
      by simp
    from Cons.IH [OF this] Cons.prems(3) show ?thesis by simp
  next
    case False
    with Cons.prems(1)
    have "recluster_loop fps th p ps (cls @ [cur]) [p] = (cls', cur')"
      by simp
    from Cons.IH [OF this] Cons.prems(2,3) show ?thesis by simp
  qed
qed

lemma buildClusters_partition:
  assumes "allPhotos st \<noteq> []"
  shows "concat (clusters (buildClusters compute st)) = allPhotos st"
    and "[] \<notin> set (clusters (buildClusters compute st))"
proof -
  from assms obtain p0 ps where ph: "allPhotos st = p0 # ps"
    by (cases "allPhotos st") auto
  obtain prevFp cache0 where cf:
    "createFingerprint compute (clusterFingerprints st) p0 = (prevFp, cache0)"
    by (cases "createFingerprint compute (clusterFingerprints st) p0")
  obtain cache cls cur where lp:
    "buildClusters_loop compute (clusterThreshold st) ps cache0 [] [p0] prevFp = (cache, cls, cur)"
    by (cases "buildClusters_loop compute (clusterThreshold st) ps cache0 [] [p0] prevFp")
  from buildClusters_loop_partition [OF lp]
  have inv: "concat cls @ cur = p0 # ps" "cur \<noteq> []" "[] \<notin> set cls"
    by simp_all
  have res: "clusters (buildClusters compute st) = cls @ [cur]"
    using ph cf lp inv(2) by (simp add: buildClusters_def)
  show "concat (clusters (buildClusters compute st)) = allPhotos st"
    using res inv ph by simp
  show "[] \<notin> set (clusters (buildClusters compute st))"
    using res inv by simp
qed

lemma recluster_partition:
  assumes "allPhotos st \<noteq> []"
  shows "concat (clusters (recluster st)) = allPhotos st"
    and "[] \<notin> set (clusters (recluster st))"
proof -
  from assms obtain p0 ps where ph: "allPhotos st = p0 # ps"
    by (cases "allPhotos st") auto
  obtain cls cur where lp:
    "recluster_loop (clusterFingerprints st) (clusterThreshold st) p0 ps [] [p0] = (cls, cur)"
    by (cases "recluster_loop (clusterFingerprints st) (clusterThreshold st) p0 ps [] [p0]")
  from recluster_loop_partition [OF lp]
  have inv: "concat cls @ cur = p0 # ps" "cur \<noteq> []" "[] \<notin> set cls"
    by simp_all
  have res: "clusters (recluster st) = cls @ [cur]"
    using ph lp inv(2) by (simp add: recluster_def)
  show "concat (clusters (recluster st)) = allPhotos st"
    using res inv ph by simp
  show "[] \<notin> set (clusters (recluster st))"
    using res inv by simp
qed

lemma concat_take_mono:
  assumes "k \<le> k'"
  shows "length (concat (take k cls)) \<le> length (concat (take k' cls))"
proof -
  from assms obtain d where "k' = k + d"
    using le_Suc_ex by blast
  then show ?thesis
    by (simp add: take_add)
qed

lemma position_cluster_exists:
  "i < length (concat cls) \<Longrightarrow>
   \<exists>k. k < length cls \<and> length (concat (take k cls)) \<le> i
        \<and> i < length (concat (take (Suc k) cls))"
proof (induction cls rule: rev_induct)
  case Nil
  then show ?case by simp
next
  case (snoc c cls)
  show ?case
  proof (cases "i < length (concat cls)")
    case True
    from snoc.IH [OF this] obtain k where k: "k < length cls"
      "length (concat (take k cls)) \<le> i" "i < length (concat (take (Suc k) cls))"
      by blast
    then have "k < length (cls @ [c]) \<and> length (concat (take k (cls @ [c]))) \<le> i
        \<and> i < length (concat (take (Suc k) (cls @ [c])))"
      by simp
    then show ?thesis by blast
  next
    case False
    with snoc.prems
    have "length cls < length (cls @ [c]) \<and> length (concat (take (length cls) (cls @ [c]))) \<le> i
        \<and> i < length (concat (take (Suc (length cls)) (cls @ [c])))"
      by simp
    then show ?thesis by blast
  qed
qed

lemma position_cluster_unique:
  assumes "i < length (concat cls)"
  shows "\<exists>!k. k < length cls \<and> length (concat (take k cls)) \<le> i
        \<and> i < length (concat (take (Suc k) cls))"
proof (rule ex_ex1I)
  show "\<exists>k. k < length cls \<and> length (concat (take k cls)) \<le> i
        \<and> i < length (concat (take (Suc k) cls))"
    using assms by (rule position_cluster_exists)
next
  fix k k'
  assume a: "k < length cls \<and> length (concat (take k cls)) \<le> i
        \<and> i < length (concat (take (Suc k) cls))"
    and b: "k' < length cls \<and> length (concat (take k' cls)) \<le> i
        \<and> i < length (concat (take (Suc k') cls))"
  show "k = k'"
  proof (rule ccontr)
    assume "k \<noteq> k'"
    then consider "Suc k \<le> k'" | "Suc k' \<le> k"
      by linarith
    then show False
    proof cases
      case 1
      from concat_take_mono [OF this, of cls] a b show False by linarith
    next
      case 2
      from concat_take_mono [OF this, of cls] a b show False by linarith
    qed
  qed
qed

lemma cluster_contiguous:
  assumes "k < length cls"
  shows "cls ! k = take (length (cls ! k)) (drop (length (concat (take k cls))) (concat cls))"
proof -
  have "cls = take k cls @ cls ! k # drop (Suc k) cls"
    using assms by (rule id_take_nth_drop)
  then have "concat cls = concat (take k cls) @ cls ! k @ concat (drop (Suc k) cls)"
    by (metis concat.simps(2) concat_append)
  then show ?thesis
    by simp
qed

text \<open>
  Claim C9. For a non-empty photo sequence, any fingerprints and any threshold, the
  clusters that buildClusters leaves in the state are an ordered partition of the
  sequence: their concatenation is the sequence, no cluster is empty, every cluster is a
  contiguous slice of the sequence, and every position of the sequence lies in exactly
  one cluster. The same holds for the clusters of recluster.
\<close>

theorem C9_clusters_partition:
  assumes "allPhotos st \<noteq> []"
  shows "concat (clusters (buildClusters compute st)) = allPhotos st
       \<and> (\<forall>c\<in>set (clusters (buildClusters compute st)). c \<noteq> [])
       \<and> (\<forall>k<length (clusters (buildClusters compute st)).
            clusters (buildClusters compute st) ! k
              = take (length (clusters (buildClusters compute st) ! k))
                  (drop (length (concat (take k (clusters (buildClusters compute st)))))
                     (allPhotos st)))
       \<and> (\<forall>i<length (allPhotos st).
            \<exists>!k. k < length (clusters (buildClusters compute st))
                \<and> length (concat (take k (clusters (buildClusters compute st)))) \<le> i
                \<and> i < length (concat (take (Suc k) (clusters (buildClusters compute st)))))
       \<and> concat (clusters (recluster st)) = allPhotos st
       \<and> (\<forall>c\<in>set (clusters (recluster st)). c \<noteq> [])"
proof -
  let ?cls = "clusters (buildClusters compute st)"
  have c: "concat ?cls = allPhotos st" and ne: "[] \<notin> set ?cls"
    using assms by (rule buildClusters_partition)+
  have ne': "\<forall>c\<in>set ?cls. c \<noteq> []"
    using ne by blast
  have contig: "\<forall>k<length ?cls. ?cls ! k
      = take (length (?cls ! k)) (drop (length (concat (take k ?cls))) (allPhotos st))"
    using cluster_contiguous [of _ ?cls] c by simp
  have uniq: "\<forall>i<length (allPhotos st).
      \<exists>!k. k < length ?cls \<and> length (concat (take k ?cls)) \<le> i
            \<and> i < length (concat (take (Suc k) ?cls))"
    using position_cluster_unique [of _ ?cls] c by simp
  have r: "concat (clusters (recluster st)) = allPhotos st"
    and rne: "[] \<notin> set (clusters (recluster st))"
    using assms by (rule recluster_partition)+
  have rne': "\<forall>c\<in>set (clusters (recluster st)). c \<noteq> []"
    using rne by blast
  show ?thesis
    using c ne' contig uniq r rne' by (intro conjI)
qed


lemma js_less_le: "js_less d t \<Longrightarrow> js_le d t"
  by (cases d) simp_all

lemma recluster_loop_split:
  "successively (\<lambda>p q. \<not> js_le (fingerprintDistance (fps (photo_id p)) (fps (photo_id q))) th)
     (prev # ps) \<Longrightarrow>
   (case recluster_loop fps th prev ps cls cur of (c, k) \<Rightarrow> c @ [k])
     = cls @ [cur] @ map (\<lambda>p. [p]) ps"
proof (induction ps arbitrary: prev cls cur)
  case Nil
  then show ?case by simp
next
  case (Cons p ps)
  from Cons.prems
  have far: "\<not> js_le (fingerprintDistance (fps (photo_id prev)) (fps (photo_id p))) th"
    and rest: "successively
      (\<lambda>p q. \<not> js_le (fingerprintDistance (fps (photo_id p)) (fps (photo_id q))) th) (p # ps)"
    by simp_all
  from far Cons.IH [OF rest, of "cls @ [cur]" "[p]"] show ?case
    by simp
qed

lemma recluster_loop_join:
  "successively (\<lambda>p q. js_le (fingerprintDistance (fps (photo_id p)) (fps (photo_id q))) th)
     (prev # ps) \<Longrightarrow>
   recluster_loop fps th prev ps cls cur = (cls, cur @ ps)"
proof (induction ps arbitrary: prev cur)
  case Nil
  then show ?case by simp
next
  case (Cons p ps)
  from Cons.prems
  have near: "js_le (fingerprintDistance (fps (photo_id prev)) (fps (photo_id p))) th"
    and rest: "successively
      (\<lambda>p q. js_le (fingerprintDistance (fps (photo_id p)) (fps (photo_id q))) th) (p # ps)"
    by simp_all
  from near Cons.IH [OF rest, of "cur @ [p]"] show ?case
    by simp
qed

lemma distinct_successively:
  "distinct (map f xs) \<Longrightarrow> successively (\<lambda>p q. f p \<noteq> f q) xs"
proof (induction xs rule: induct_list012)
  case (3 x y zs)
  then show ?case by auto
qed simp_all

lemma recluster_clusters:
  assumes "allPhotos st = p0 # ps"
  shows "clusters (recluster st) =
    (case recluster_loop (clusterFingerprints st) (clusterThreshold st) p0 ps [] [p0] of
       (c, k) \<Rightarrow> c @ [k])"
proof -
  obtain cls cur where lp:
    "recluster_loop (clusterFingerprints st) (clusterThreshold st) p0 ps [] [p0] = (cls, cur)"
    by (cases "recluster_loop (clusterFingerprints st) (clusterThreshold st) p0 ps [] [p0]")
  from recluster_loop_partition [OF lp] have "cur \<noteq> []"
    by simp
  with assms lp show ?thesis
    by (simp add: recluster_def)
qed

lemma createFingerprint_cached:
  "cache (photo_id p) \<noteq> None \<Longrightarrow>
   createFingerprint compute cache p = (cache (photo_id p), cache)"
  by (auto simp: createFingerprint_def)

lemma buildClusters_loop_cached:
  "\<forall>p\<in>set ps. cache (photo_id p) \<noteq> None \<Longrightarrow>
   buildClusters_loop compute th ps cache cls cur (cache (photo_id prev))
     = (cache, recluster_loop cache th prev ps cls cur)"
proof (induction ps arbitrary: prev cls cur)
  case Nil
  then show ?case by simp
next
  case (Cons p ps)
  then have c: "createFingerprint compute cache p = (cache (photo_id p), cache)"
    by (simp add: createFingerprint_cached)
  from Cons.prems have rest: "\<forall>p\<in>set ps. cache (photo_id p) \<noteq> None"
    by simp
  show ?case
    using c Cons.IH [OF rest] by simp
qed

lemma buildClusters_cached:
  assumes "\<forall>p\<in>set (allPhotos st). clusterFingerprints st (photo_id p) \<noteq> None"
  shows "buildClusters compute st = recluster st"
proof (cases "allPhotos st")
  case Nil
  then show ?thesis by (simp add: buildClusters_def recluster_def)
next
  case (Cons p0 ps)
  with assms have c0: "createFingerprint compute (clusterFingerprints st) p0
      = (clusterFingerprints st (photo_id p0), clusterFingerprints st)"
    by (simp add: createFingerprint_cached)
  from assms Cons have rest: "\<forall>p\<in>set ps. clusterFingerprints st (photo_id p) \<noteq> None"
    by simp
  show ?thesis
    using Cons c0 buildClusters_loop_cached [OF rest]
    by (simp add: buildClusters_def recluster_def split: prod.splits)
qed

text \<open>
  Claim C8. For a non-empty photo sequence with a cached fingerprint for every photo:
  with threshold 0 and pairwise distinct fingerprints, recluster produces one singleton
  cluster per photo, in input order; with a threshold strictly above the distance of
  every two consecutive photos, it produces the single cluster of all photos in input
  order. With every fingerprint cached, buildClusters computes the same state.
\<close>

theorem C8_cluster_edge_policy:
  assumes "allPhotos st \<noteq> []"
    and "\<forall>p\<in>set (allPhotos st). clusterFingerprints st (photo_id p) \<noteq> None"
  shows "(clusterThreshold st = 0
          \<and> distinct (map (\<lambda>p. clusterFingerprints st (photo_id p)) (allPhotos st))
          \<longrightarrow> clusters (recluster st) = map (\<lambda>p. [p]) (allPhotos st))
       \<and> (successively
            (\<lambda>p q. js_less (fingerprintDistance (clusterFingerprints st (photo_id p))
                                                 (clusterFingerprints st (photo_id q)))
                            (clusterThreshold st))
            (allPhotos st)
          \<longrightarrow> clusters (recluster st) = [allPhotos st])
       \<and> buildClusters compute st = recluster st"
proof -
  let ?fps = "clusterFingerprints st"
  let ?th = "clusterThreshold st"
  from assms(1) obtain p0 ps where ph: "allPhotos st = p0 # ps"
    by (cases "allPhotos st") auto
  have one: "clusters (recluster st) = map (\<lambda>p. [p]) (allPhotos st)"
    if th0: "?th = 0" and d: "distinct (map (\<lambda>p. ?fps (photo_id p)) (allPhotos st))"
  proof -
    have "successively (\<lambda>p q. ?fps (photo_id p) \<noteq> ?fps (photo_id q)) (allPhotos st)"
      using d by (rule distinct_successively)
    then have "successively
        (\<lambda>p q. \<not> js_le (fingerprintDistance (?fps (photo_id p)) (?fps (photo_id q))) ?th)
        (p0 # ps)"
      unfolding ph th0
      by (rule successively_mono) (simp_all add: fingerprintDistance_distinct)
    from recluster_loop_split [OF this, of "[]" "[p0]"] show ?thesis
      by (simp add: recluster_clusters [OF ph] ph)
  qed
  have all: "clusters (recluster st) = [allPhotos st]"
    if s: "successively
            (\<lambda>p q. js_less (fingerprintDistance (?fps (photo_id p)) (?fps (photo_id q))) ?th)
            (allPhotos st)"
  proof -
    from s have "successively
        (\<lambda>p q. js_le (fingerprintDistance (?fps (photo_id p)) (?fps (photo_id q))) ?th)
        (p0 # ps)"
      unfolding ph
      by (rule successively_mono) (simp_all add: js_less_le)
    from recluster_loop_join [OF this, of "[]" "[p0]"] show ?thesis
      by (simp add: recluster_clusters [OF ph] ph)
  qed
  have same: "buildClusters compute st = recluster st"
    using assms(2) by (rule buildClusters_cached)
  show ?thesis
    using one all same by blast
qed


theorem C9_clusters_partition_witness:
  "allPhotos session0 \<noteq> []
   \<and> concat (clusters (buildClusters (\<lambda>p. None) session0)) = [photoA, photoB, photoC]
   \<and> clusters (buildClusters (\<lambda>p. None) (session0\<lparr>clusterThreshold := 1\<rparr>))
        = [[photoA], [photoB], [photoC]]"
  using C9_clusters_partition [of session0 "\<lambda>p. None"]
  by (simp add: session0_def buildClusters_def createFingerprint_def fingerprintDistance_def
      photoA_def photoB_def photoC_def)

theorem C8_cluster_edge_policy_witness:
  "clusters (recluster (session0\<lparr>clusterThreshold := 0\<rparr>)) = [[photoA], [photoB], [photoC]]
   \<and> clusters (recluster (session0\<lparr>clusterThreshold := 3\<rparr>)) = [[photoA, photoB, photoC]]"
  using C8_cluster_edge_policy [of "session0\<lparr>clusterThreshold := 0\<rparr>"]
    C8_cluster_edge_policy [of "session0\<lparr>clusterThreshold := 3\<rparr>"]
  by (simp add: session0_def fingerprintDistance_def photoA_def photoB_def photoC_def)

section \<open>Properties of the confidence estimate\<close>

lemma calculateConfidence_guard:
  "min (targetCount st) (int (length (candidates st))) < 2 \<or> comparisonsCompleted st < 2 \<Longrightarrow>
   calculateConfidence st prev = (0, prev)"
  by (simp add: calculateConfidence_def Let_def)

lemma calculateConfidence_history:
  "\<not> (min (targetCount st) (int (length (candidates st))) < 2 \<or> comparisonsCompleted st < 2) \<Longrightarrow>
   snd (calculateConfidence st prev)
     = (if length (prev @ [currentTopNIds st]) > 10 then tl (prev @ [currentTopNIds st])
        else prev @ [currentTopNIds st])"
  by (simp add: calculateConfidence_def Let_def)

lemma calculateConfidence_bounded:
  "length prev \<le> 10 \<Longrightarrow> length (snd (calculateConfidence st prev)) \<le> 10"
  by (cases "min (targetCount st) (int (length (candidates st))) < 2 \<or> comparisonsCompleted st < 2")
    (simp_all add: calculateConfidence_guard calculateConfidence_history)

lemma confidence_run_bounded:
  "length prev \<le> 10 \<Longrightarrow> length (confidence_run sts prev) \<le> 10"
  by (induction sts arbitrary: prev) (simp_all add: calculateConfidence_bounded)

lemma round_nonneg: "0 \<le> x \<Longrightarrow> 0 \<le> round (x :: real)"
proof -
  assume "0 \<le> x"
  then have "round (0::real) \<le> round x"
    by (rule round_mono)
  then show ?thesis by simp
qed

text \<open>
  Claim C5. For every state (candidate pool, target count, number of completed
  comparisons) and every snapshot history, calculateConfidence returns an integer between
  0 and 100, and it returns 0 whenever \<open>min(targetCount, candidates.length) < 2\<close> or
  \<open>comparisonsCompleted < 2\<close>.
\<close>

theorem C5_confidence_range:
  "0 \<le> fst (calculateConfidence st prev)
   \<and> fst (calculateConfidence st prev) \<le> 100
   \<and> (min (targetCount st) (int (length (candidates st))) < 2 \<or> comparisonsCompleted st < 2
        \<longrightarrow> fst (calculateConfidence st prev) = 0)"
proof (cases "min (targetCount st) (int (length (candidates st))) < 2 \<or> comparisonsCompleted st < 2")
  case True
  then show ?thesis
    by (simp add: calculateConfidence_guard)
next
  case False
  then have cc: "2 \<le> comparisonsCompleted st"
    by simp
  define history where "history =
    (if length (prev @ [currentTopNIds st]) > 10 then tl (prev @ [currentTopNIds st])
     else prev @ [currentTopNIds st])"
  define conf where "conf =
    real (length (filter (\<lambda>p. comparisons_or0 p \<ge> 1) (candidates st)))
        / real (length (candidates st)) * 30
      + real (stableCount history) / real (length history - 1) * 70"
  have v: "fst (calculateConfidence st prev)
      = (if length history < 3 then min 20 (comparisonsCompleted st * 5)
         else min 100 (round conf))"
    using False unfolding calculateConfidence_def Let_def history_def conf_def
    by simp
  have "0 \<le> conf"
    unfolding conf_def by simp
  then have r: "0 \<le> round conf"
    by (rule round_nonneg)
  have "0 \<le> fst (calculateConfidence st prev) \<and> fst (calculateConfidence st prev) \<le> 100"
    unfolding v using cc r by (simp add: min_def)
  with False show ?thesis by simp
qed

theorem C5_confidence_range_witness:
  "fst (calculateConfidence session0 []) = 0
   \<and> fst (calculateConfidence (session0\<lparr>comparisonsCompleted := 3\<rparr>) []) = 15
   \<and> fst (calculateConfidence (session0\<lparr>comparisonsCompleted := 3\<rparr>)
            [{''A'', ''B''}, {''A'', ''B''}]) = 70
   \<and> fst (calculateConfidence (session0\<lparr>comparisonsCompleted := 3\<rparr>)
            [{''A'', ''C''}, {''A'', ''B''}]) = 35"
  using C5_confidence_range [of session0 "[]"]
    C5_confidence_range [of "session0\<lparr>comparisonsCompleted := 3\<rparr>" "[]"]
  by (simp add: session0_def calculateConfidence_def photoA_def photoB_def photoC_def
      currentTopNIds_def js_sort_def identicalSets_def comparisons_or0_def)

text \<open>
  Claim C6 as stated, "every call appends exactly one snapshot", fails on a call that the
  guard answers: with no comparison completed the history is as empty after the call as
  it was before.
\<close>

theorem C6_snapshot_guard_counterexample:
  "snd (calculateConfidence session0 []) = []
   \<and> snd (calculateConfidence session0 []) \<noteq> [] @ [currentTopNIds session0]"
  by (simp add: calculateConfidence_def session0_def photoA_def photoB_def photoC_def)

text \<open>
  Claim C6, amended. A call of calculateConfidence that passes the guard
  (\<open>targetN \<ge> 2\<close> and \<open>comparisonsCompleted \<ge> 2\<close>) appends exactly one snapshot, the
  current top-N id set, and drops the oldest snapshot when that makes more than 10; a call
  that the guard answers with 0 leaves the history as it is. A history of at most 10
  snapshots stays at most 10, so from the empty history no run of calls exceeds 10.
\<close>

theorem C6_snapshot_history:
  "(\<not> (min (targetCount st) (int (length (candidates st))) < 2 \<or> comparisonsCompleted st < 2)
      \<longrightarrow> snd (calculateConfidence st prev)
          = (if length prev < 10 then prev @ [currentTopNIds st]
             else tl (prev @ [currentTopNIds st])))
   \<and> (min (targetCount st) (int (length (candidates st))) < 2 \<or> comparisonsCompleted st < 2
      \<longrightarrow> snd (calculateConfidence st prev) = prev)
   \<and> (length prev \<le> 10 \<longrightarrow> length (snd (calculateConfidence st prev)) \<le> 10)
   \<and> length (confidence_run sts []) \<le> 10"
proof -
  have a: "snd (calculateConfidence st prev)
          = (if length prev < 10 then prev @ [currentTopNIds st]
             else tl (prev @ [currentTopNIds st]))"
    if "\<not> (min (targetCount st) (int (length (candidates st))) < 2 \<or> comparisonsCompleted st < 2)"
    using calculateConfidence_history [OF that, of prev] by auto
  have b: "snd (calculateConfidence st prev) = prev"
    if "min (targetCount st) (int (length (candidates st))) < 2 \<or> comparisonsCompleted st < 2"
    using that by (simp add: calculateConfidence_guard)
  have c: "length (confidence_run sts []) \<le> 10"
    by (rule confidence_run_bounded) simp
  show ?thesis
    using a b c calculateConfidence_bounded [of prev st] by blast
qed

theorem C6_snapshot_history_witness:
  "snd (calculateConfidence (session0\<lparr>comparisonsCompleted := 3\<rparr>) []) = [{''A'', ''B''}]
   \<and> snd (calculateConfidence session0 [{''A'', ''B''}]) = [{''A'', ''B''}]
   \<and> length (snd (calculateConfidence (session0\<lparr>comparisonsCompleted := 3\<rparr>)
        (replicate 10 {''A'', ''C''}))) = 10"
  using C6_snapshot_history [of "session0\<lparr>comparisonsCompleted := 3\<rparr>" "[]"]
    C6_snapshot_history [of "session0" "[{''A'', ''B''}]"]
    C6_snapshot_history [of "session0\<lparr>comparisonsCompleted := 3\<rparr>" "replicate 10 {''A'', ''C''}"]
  by (simp add: session0_def photoA_def photoB_def photoC_def currentTopNIds_def js_sort_def)

section \<open>Undoing a comparison\<close>

lemma find_ref_Some:
  "find_ref P xs = Some i \<Longrightarrow> i < length xs \<and> P (xs ! i)"
proof (induction xs arbitrary: i)
  case Nil
  then show ?case by simp
next
  case (Cons x xs)
  then show ?case
    by (cases "P x") auto
qed

lemma find_ref_unique:
  "i < length xs \<Longrightarrow> P (xs ! i) \<Longrightarrow> (\<forall>j<length xs. P (xs ! j) \<longrightarrow> j = i) \<Longrightarrow>
   find_ref P xs = Some i"
proof (induction xs arbitrary: i)
  case Nil
  then show ?case by simp
next
  case (Cons x xs)
  show ?case
  proof (cases i)
    case 0
    with Cons.prems show ?thesis by simp
  next
    case (Suc n)
    from Cons.prems(3) Suc have nx: "\<not> P x"
      by (metis length_greater_0_conv list.simps(3) nat.simps(3) nth_Cons_0)
    have "find_ref P xs = Some n"
    proof (rule Cons.IH)
      show "n < length xs" using Cons.prems(1) Suc by simp
      show "P (xs ! n)" using Cons.prems(2) Suc by simp
      show "\<forall>j<length xs. P (xs ! j) \<longrightarrow> j = n"
      proof (intro allI impI)
        fix j assume "j < length xs" "P (xs ! j)"
        then have "Suc j < length (x # xs)" "P ((x # xs) ! Suc j)" by simp_all
        with Cons.prems(3) have "Suc j = i" by blast
        with Suc show "j = n" by simp
      qed
    qed
    with nx Suc show ?thesis by simp
  qed
qed

lemma find_ref_id:
  assumes "distinct (map photo_id cs)" "i < length cs"
  shows "find_ref (\<lambda>p. photo_id p = photo_id (cs ! i)) cs = Some i"
proof (rule find_ref_unique)
  show "i < length cs" by fact
  show "photo_id (cs ! i) = photo_id (cs ! i)" by simp
  show "\<forall>j<length cs. photo_id (cs ! j) = photo_id (cs ! i) \<longrightarrow> j = i"
  proof (intro allI impI)
    fix j assume j: "j < length cs" "photo_id (cs ! j) = photo_id (cs ! i)"
    then have "map photo_id cs ! j = map photo_id cs ! i"
      using assms(2) by simp
    with nth_eq_iff_index_eq [OF assms(1), of j i] assms(2) j(1) show "j = i"
      by simp
  qed
qed

lemma find_ref_map: "find_ref (\<lambda>p. Q (f p)) xs = find_ref Q (map f xs)"
  by (induction xs) simp_all

lemma find_ref_ids:
  "map photo_id cs' = map photo_id cs \<Longrightarrow>
   find_ref (\<lambda>p. Q (photo_id p)) cs' = find_ref (\<lambda>p. Q (photo_id p)) cs"
  by (simp add: find_ref_map)

lemma ratings_apart_refl: "ratings_apart p p"
  by (simp add: ratings_apart_def)

lemma ratings_apart_elo: "ratings_apart p q \<Longrightarrow> ratings_apart p (q\<lparr>elo := e\<rparr>)"
  by (simp add: ratings_apart_def)

lemma ratings_apart_comparisons:
  "ratings_apart p q \<Longrightarrow> ratings_apart p (q\<lparr>comparisons := c\<rparr>)"
  by (simp add: ratings_apart_def)

lemma ratings_apart_id: "ratings_apart p q \<Longrightarrow> photo_id q = photo_id p"
  by (metis ratings_apart_def photo.select_convs(1) photo.surjective photo.update_convs(2,3))

lemma ratings_apart_update:
  assumes "list_all2 ratings_apart cs cs'" and "ratings_apart (cs ! i) q"
  shows "list_all2 ratings_apart cs (cs'[i := q])"
proof -
  have "list_all2 ratings_apart (cs[i := cs ! i]) (cs'[i := q])"
    using assms by (rule list_all2_update_cong)
  then show ?thesis by simp
qed

lemma ratings_apart_set_elo:
  assumes "list_all2 ratings_apart cs cs'"
  shows "list_all2 ratings_apart cs (cs'[i := (cs' ! i)\<lparr>elo := e\<rparr>])"
proof (cases "i < length cs'")
  case True
  with assms have "ratings_apart (cs ! i) (cs' ! i)"
    by (simp add: list_all2_conv_all_nth)
  then have "ratings_apart (cs ! i) ((cs' ! i)\<lparr>elo := e\<rparr>)"
    by (rule ratings_apart_elo)
  with assms show ?thesis by (rule ratings_apart_update)
next
  case False
  with assms show ?thesis by (simp add: list_update_beyond)
qed

lemma ratings_apart_set_comparisons:
  assumes "list_all2 ratings_apart cs cs'"
  shows "list_all2 ratings_apart cs (cs'[i := (cs' ! i)\<lparr>comparisons := c\<rparr>])"
proof (cases "i < length cs'")
  case True
  with assms have "ratings_apart (cs ! i) (cs' ! i)"
    by (simp add: list_all2_conv_all_nth)
  then have "ratings_apart (cs ! i) ((cs' ! i)\<lparr>comparisons := c\<rparr>)"
    by (rule ratings_apart_comparisons)
  with assms show ?thesis by (rule ratings_apart_update)
next
  case False
  with assms show ?thesis by (simp add: list_update_beyond)
qed

lemma updateEloRatings_apart: "list_all2 ratings_apart cs (updateEloRatings cs w l)"
  unfolding updateEloRatings_def Let_def
  by (intro ratings_apart_set_comparisons ratings_apart_set_elo)
    (simp add: list_all2_same ratings_apart_refl)

lemma updateEloTie_apart: "list_all2 ratings_apart cs (updateEloTie cs pa pb)"
  unfolding updateEloTie_def Let_def
  by (intro ratings_apart_set_comparisons ratings_apart_set_elo)
    (simp add: list_all2_same ratings_apart_refl)

lemma ratings_apart_ids:
  "list_all2 ratings_apart cs cs' \<Longrightarrow> map photo_id cs' = map photo_id cs"
  by (induction rule: list_all2_induct) (simp_all add: ratings_apart_id)


lemma ratings_apart_put:
  "ratings_apart p q \<Longrightarrow> q\<lparr>elo := elo p, comparisons := comparisons p\<rparr> = p"
  by (simp add: ratings_apart_def)

lemma undoComparison_after:
  assumes d: "distinct (map photo_id (candidates st))"
    and pa: "pa < length (candidates st)" and pb: "pb < length (candidates st)"
    and apart: "list_all2 ratings_apart (candidates st) cs1"
  shows "undoComparison
           (st\<lparr>comparisonHistory := comparisonHistory st @
                  [\<lparr>rec_a = photo_id (candidates st ! pa), rec_b = photo_id (candidates st ! pb),
                    rec_winner = w,
                    prevEloA = elo (candidates st ! pa), prevEloB = elo (candidates st ! pb),
                    prevCompA = comparisons (candidates st ! pa),
                    prevCompB = comparisons (candidates st ! pb)\<rparr>],
               candidates := cs1,
               comparisonsCompleted := comparisonsCompleted st + 1\<rparr>)
         = st\<lparr>candidates := cs1[pa := candidates st ! pa, pb := candidates st ! pb]\<rparr>"
proof -
  let ?cs = "candidates st"
  have ids: "map photo_id cs1 = map photo_id ?cs"
    using apart by (rule ratings_apart_ids)
  have fa: "find_ref (\<lambda>p. photo_id p = photo_id (?cs ! pa)) cs1 = Some pa"
    using find_ref_ids [OF ids, of "\<lambda>i. i = photo_id (?cs ! pa)"] find_ref_id [OF d pa]
    by simp
  have fb: "find_ref (\<lambda>p. photo_id p = photo_id (?cs ! pb)) cs1 = Some pb"
    using find_ref_ids [OF ids, of "\<lambda>i. i = photo_id (?cs ! pb)"] find_ref_id [OF d pb]
    by simp
  have len: "length cs1 = length ?cs"
    using apart by (simp add: list_all2_lengthD)
  have a1: "ratings_apart (?cs ! pa) (cs1 ! pa)"
    using apart pa by (simp add: list_all2_conv_all_nth)
  then have c1: "cs1[pa := (cs1 ! pa)\<lparr>elo := elo (?cs ! pa), comparisons := comparisons (?cs ! pa)\<rparr>]
      = cs1[pa := ?cs ! pa]"
    by (simp add: ratings_apart_put)
  have "list_all2 ratings_apart ?cs (cs1[pa := ?cs ! pa])"
    using apart by (rule ratings_apart_update) (rule ratings_apart_refl)
  then have "ratings_apart (?cs ! pb) (cs1[pa := ?cs ! pa] ! pb)"
    using pb by (simp add: list_all2_conv_all_nth)
  then have c2: "(cs1[pa := ?cs ! pa])[pb := (cs1[pa := ?cs ! pa] ! pb)
        \<lparr>elo := elo (?cs ! pb), comparisons := comparisons (?cs ! pb)\<rparr>]
      = cs1[pa := ?cs ! pa, pb := ?cs ! pb]"
    by (simp add: ratings_apart_put)
  show ?thesis
    by (simp add: undoComparison_def Let_def fa fb c1 c2)
qed

lemma restore_pair_all:
  assumes "length cs1 = length cs"
    and "\<forall>k<length cs. k \<noteq> pa \<longrightarrow> k \<noteq> pb \<longrightarrow> cs1 ! k = cs ! k"
  shows "cs1[pa := cs ! pa, pb := cs ! pb] = cs"
proof (rule nth_equalityI)
  show "length (cs1[pa := cs ! pa, pb := cs ! pb]) = length cs"
    using assms(1) by simp
  fix k assume "k < length (cs1[pa := cs ! pa, pb := cs ! pb])"
  then have k: "k < length cs" using assms(1) by simp
  show "cs1[pa := cs ! pa, pb := cs ! pb] ! k = cs ! k"
  proof (cases "k = pb")
    case True
    with k assms(1) show ?thesis by simp
  next
    case False
    note npb = this
    show ?thesis
    proof (cases "k = pa")
      case True
      with k npb assms(1) show ?thesis by simp
    next
      case False
      with k npb assms(2) show ?thesis by simp
    qed
  qed
qed

lemma restore_pair_nth:
  assumes "length cs1 = length cs" "pa < length cs" "pb < length cs"
  shows "cs1[pa := cs ! pa, pb := cs ! pb] ! pa = cs ! pa"
    and "cs1[pa := cs ! pa, pb := cs ! pb] ! pb = cs ! pb"
  using assms by (cases "pa = pb"; simp)+

lemma index_of_id:
  assumes "distinct (map photo_id cs)" "i < length cs" "j < length cs"
    and "photo_id (cs ! i) = photo_id (cs ! j)"
  shows "i = j"
  using nth_eq_iff_index_eq [OF assms(1), of i j] assms(2-4) by simp

text \<open>
  Claim C2. In a pool whose candidates have pairwise different ids, with two candidates
  of the pool on screen: skipComparison (a tie) followed by undoComparison gives back the
  state it started from, and so does confirmComparison (a win) followed by
  undoComparison when the selected id is the id of one of the two candidates. For any
  selection the two candidates are back at their records of before the call. The stored
  values \<open>prevEloA\<close>, \<open>prevEloB\<close>, \<open>prevCompA\<close>, \<open>prevCompB\<close> are assigned back as they
  are.
\<close>

theorem C2_undo_round_trip:
  assumes d: "distinct (map photo_id (candidates st))"
    and cp: "currentPair st = Some (pa, pb)"
    and pa: "pa < length (candidates st)" and pb: "pb < length (candidates st)"
  shows "map_option undoComparison (skipComparison st) = Some st
       \<and> (set (take 1 (currentSelection st))
            \<subseteq> {photo_id (candidates st ! pa), photo_id (candidates st ! pb)}
          \<longrightarrow> map_option undoComparison (confirmComparison st) = Some st)
       \<and> map_option (\<lambda>s. (candidates s ! pa, candidates s ! pb))
            (map_option undoComparison (confirmComparison st))
           = Some (candidates st ! pa, candidates st ! pb)"
proof -
  let ?cs = "candidates st"
  let ?winnerId = "case currentSelection st of [] \<Rightarrow> None | x # _ \<Rightarrow> Some x"
  let ?winner = "find_ref (\<lambda>p. Some (photo_id p) = ?winnerId) ?cs"
  let ?loser = "find_ref (\<lambda>p. Some (photo_id p) \<noteq> ?winnerId
                    \<and> (photo_id p = photo_id (?cs ! pa) \<or> photo_id p = photo_id (?cs ! pb))) ?cs"
  let ?cs' = "case ?winner of None \<Rightarrow> ?cs
              | Some w \<Rightarrow> (case ?loser of None \<Rightarrow> ?cs | Some l \<Rightarrow> updateEloRatings ?cs w l)"
  have tie_apart: "list_all2 ratings_apart ?cs (updateEloTie ?cs pa pb)"
    by (rule updateEloTie_apart)
  have tie_all: "(updateEloTie ?cs pa pb)[pa := ?cs ! pa, pb := ?cs ! pb] = ?cs"
    by (rule restore_pair_all) (simp_all add: updateEloTie_length updateEloTie_other)
  have skip: "map_option undoComparison (skipComparison st) = Some st"
    using cp undoComparison_after [OF d pa pb tie_apart, of None] tie_all
    by (simp add: skipComparison_def Let_def)
  have win_apart: "list_all2 ratings_apart ?cs ?cs'"
    by (auto simp: updateEloRatings_apart list_all2_same ratings_apart_refl split: option.splits)
  have len': "length ?cs' = length ?cs"
    using win_apart by (simp add: list_all2_lengthD)
  have confirm: "map_option undoComparison (confirmComparison st)
      = Some (st\<lparr>candidates := ?cs'[pa := ?cs ! pa, pb := ?cs ! pb]\<rparr>)"
    using cp undoComparison_after [OF d pa pb win_apart, of ?winnerId]
    by (simp add: confirmComparison_def Let_def)
  have win_all: "?cs'[pa := ?cs ! pa, pb := ?cs ! pb] = ?cs"
    if sel: "set (take 1 (currentSelection st)) \<subseteq> {photo_id (?cs ! pa), photo_id (?cs ! pb)}"
  proof (rule restore_pair_all [OF len'], intro allI impI)
    fix k assume k: "k < length ?cs" "k \<noteq> pa" "k \<noteq> pb"
    show "?cs' ! k = ?cs ! k"
    proof (cases ?winner)
      case None
      then show ?thesis by simp
    next
      case (Some w)
      note w = this
      show ?thesis
      proof (cases ?loser)
        case None
        with w show ?thesis by simp
      next
        case (Some l)
        from find_ref_Some [OF w] have wl: "w < length ?cs"
          and wid: "Some (photo_id (?cs ! w)) = ?winnerId"
          by simp_all
        from find_ref_Some [OF Some] have ll: "l < length ?cs"
          and lid: "photo_id (?cs ! l) = photo_id (?cs ! pa) \<or> photo_id (?cs ! l) = photo_id (?cs ! pb)"
          by simp_all
        from wid sel
        have "photo_id (?cs ! w) = photo_id (?cs ! pa) \<or> photo_id (?cs ! w) = photo_id (?cs ! pb)"
          by (cases "currentSelection st") auto
        then have "w = pa \<or> w = pb"
          using index_of_id [OF d wl pa] index_of_id [OF d wl pb] by blast
        moreover from lid have "l = pa \<or> l = pb"
          using index_of_id [OF d ll pa] index_of_id [OF d ll pb] by blast
        ultimately have "k \<noteq> w" "k \<noteq> l"
          using k by auto
        then show ?thesis
          using w Some by (simp add: updateEloRatings_other)
      qed
    qed
  qed
  have pair: "map_option (\<lambda>s. (candidates s ! pa, candidates s ! pb))
            (map_option undoComparison (confirmComparison st))
           = Some (?cs ! pa, ?cs ! pb)"
    unfolding confirm using restore_pair_nth [OF len' pa pb] by simp
  have conf_all: "map_option undoComparison (confirmComparison st) = Some st"
    if "set (take 1 (currentSelection st)) \<subseteq> {photo_id (?cs ! pa), photo_id (?cs ! pb)}"
    unfolding confirm win_all [OF that] by simp
  show ?thesis
    using skip conf_all pair by (intro conjI impI)
qed


lemma confirmComparison_session0: "confirmComparison session0 = Some session1"
  by (simp add: confirmComparison_def session0_def session1_def photoA_def photoB_def
      photoC_def updateEloRatings_def expectedScore_def ELO_K_def comparisons_or0_def)

theorem C2_undo_round_trip_witness:
  "map_option undoComparison (confirmComparison session0) = Some session0
   \<and> map_option undoComparison (skipComparison session0) = Some session0
   \<and> map_option (\<lambda>s. map elo (candidates s)) (confirmComparison session0)
        = Some [1516, 1484, 1500]"
  using C2_undo_round_trip [of session0 0 1]
  by (simp add: confirmComparison_session0)
    (simp add: session0_def session1_def photoA_def photoB_def photoC_def)

section \<open>Properties of the pairing\<close>

section \<open>Properties of the pairing\<close>

lemma insert_sorted_mset: "mset (insert_sorted cmp x ys) = add_mset x (mset ys)"
  by (induction ys) simp_all

lemma js_sort_mset: "mset (js_sort cmp xs) = mset xs"
  by (induction xs) (simp_all add: js_sort_def insert_sorted_mset)

lemma refs_permutation:
  assumes "mset xs = mset [0..<n]"
  shows "distinct xs" and "set xs = {0..<n}" and "length xs = n"
proof -
  show "distinct xs"
    using mset_eq_imp_distinct_iff [OF assms] by simp
  show "set xs = {0..<n}"
    using mset_eq_setD [OF assms] by simp
  show "length xs = n"
    using mset_eq_length [OF assms] by simp
qed

lemma sortedByElo_permutation: "mset (sortedByElo cs) = mset [0..<length cs]"
  by (simp add: sortedByElo_def js_sort_mset)

lemma sortedByComparisons_permutation:
  "mset (sortedByComparisons cs) = mset [0..<length cs]"
  by (simp add: sortedByComparisons_def js_sort_mset)

lemma underCompared_refs:
  "distinct (underCompared cs)" "set (underCompared cs) \<subseteq> {0..<length cs}"
proof -
  obtain P where u: "underCompared cs = filter P (sortedByComparisons cs)"
    by (simp add: underCompared_def Let_def)
  note s = refs_permutation(1,2) [OF sortedByComparisons_permutation, of cs]
  show "distinct (underCompared cs)"
    unfolding u using s(1) by (rule distinct_filter)
  have "set (filter P (sortedByComparisons cs)) \<subseteq> set (sortedByComparisons cs)"
    by (rule filter_is_subset)
  then show "set (underCompared cs) \<subseteq> {0..<length cs}"
    unfolding u s(2) .
qed

lemma first_fresh_pair_distinct:
  "first_fresh_pair recent xs = Some (i, j) \<Longrightarrow> distinct xs \<Longrightarrow>
   i \<in> set xs \<and> j \<in> set xs \<and> i \<noteq> j"
proof (induction xs)
  case Nil
  then show ?case by simp
next
  case (Cons x rest)
  show ?case
  proof (cases "find (\<lambda>y. \<not> recent x y) rest")
    case None
    with Cons show ?thesis by auto
  next
    case (Some y)
    then have "y \<in> set rest"
      by (auto simp: find_Some_iff)
    with Some Cons.prems show ?thesis by auto
  qed
qed

lemma underComparedPair_valid:
  assumes s1: "is_shuffle shuffle1"
    and r: "underComparedPair shuffle1 st = Some (i, j)"
  shows "i \<noteq> j \<and> i < length (candidates st) \<and> j < length (candidates st)"
proof -
  let ?cs = "candidates st"
  from r have ffp: "first_fresh_pair
      (\<lambda>i j. recentlyCompared (comparisonHistory st) 10 (?cs ! i) (?cs ! j))
      (shuffle1 (underCompared ?cs)) = Some (i, j)"
    by (simp add: underComparedPair_def Let_def split: if_splits)
  have m: "mset (shuffle1 (underCompared ?cs)) = mset (underCompared ?cs)"
    using s1 by (simp add: is_shuffle_def)
  have "distinct (shuffle1 (underCompared ?cs))"
    using mset_eq_imp_distinct_iff [OF m] underCompared_refs(1) by simp
  from first_fresh_pair_distinct [OF ffp this]
  have "i \<in> set (underCompared ?cs)" "j \<in> set (underCompared ?cs)" "i \<noteq> j"
    using mset_eq_setD [OF m] by simp_all
  with underCompared_refs(2) [of ?cs] show ?thesis by auto
qed

lemma adjacentPair_valid:
  assumes n2: "2 \<le> length (candidates st)"
    and r: "adjacentPair rnd st = Some (i, j)"
  shows "i \<noteq> j \<and> i < length (candidates st) \<and> j < length (candidates st)"
proof -
  let ?cs = "candidates st"
  let ?n = "length ?cs"
  let ?byElo = "sortedByElo ?cs"
  let ?idxs = "map (\<lambda>i. (i + nat \<lfloor>rnd * real (length ?byElo - 1)\<rfloor>) mod (length ?byElo - 1))
                 [0..<length ?byElo - 1]"
  let ?scan = "find (\<lambda>idx. \<not> recentlyCompared (comparisonHistory st) 15
                              (?cs ! (?byElo ! idx)) (?cs ! (?byElo ! (idx + 1)))) ?idxs"
  have elo: "distinct ?byElo" "set ?byElo = {0..<?n}" "length ?byElo = ?n"
    using refs_permutation [OF sortedByElo_permutation] by simp_all
  have unf: "adjacentPair rnd st =
      (case ?scan of Some idx \<Rightarrow> Some (?byElo ! idx, ?byElo ! (idx + 1)) | None \<Rightarrow> None)"
    by (simp add: adjacentPair_def Let_def)
  from r obtain idx where scan: "?scan = Some idx"
    and ij: "i = ?byElo ! idx" "j = ?byElo ! (idx + 1)"
    unfolding unf by (cases ?scan) simp_all
  from scan have "idx \<in> set ?idxs"
    unfolding find_Some_iff by (metis nth_mem)
  then obtain k where "idx = (k + nat \<lfloor>rnd * real (length ?byElo - 1)\<rfloor>) mod (length ?byElo - 1)"
    by auto
  moreover have "0 < length ?byElo - 1"
    using n2 elo(3) by simp
  ultimately have "idx < length ?byElo - 1"
    by simp
  then have "idx < length ?byElo" "idx + 1 < length ?byElo"
    by simp_all
  then have "i \<in> set ?byElo" "j \<in> set ?byElo" "i \<noteq> j"
    using ij elo(1) by (simp_all add: nth_eq_iff_index_eq)
  with elo(2) show ?thesis by simp
qed

lemma randomPair_valid:
  assumes s2: "is_shuffle shuffle2"
    and n2: "2 \<le> length (candidates st)"
    and r: "randomPair shuffle2 st = (i, j)"
  shows "i \<noteq> j \<and> i < length (candidates st) \<and> j < length (candidates st)"
proof -
  let ?n = "length (candidates st)"
  from r have ij: "i = shuffle2 [0..<?n] ! 0" "j = shuffle2 [0..<?n] ! 1"
    by (simp_all add: randomPair_def Let_def)
  have m: "mset (shuffle2 [0..<?n]) = mset [0..<?n]"
    using s2 by (simp add: is_shuffle_def)
  note sh = refs_permutation [OF m]
  from sh(3) n2 have "0 < length (shuffle2 [0..<?n])" "1 < length (shuffle2 [0..<?n])"
    by linarith+
  then have "i \<in> set (shuffle2 [0..<?n])" "j \<in> set (shuffle2 [0..<?n])" "i \<noteq> j"
    using ij sh(1) by (simp_all add: nth_eq_iff_index_eq)
  with sh(2) show ?thesis by simp
qed

lemma getNextPair_None_iff:
  "getNextPair shuffle1 rnd shuffle2 st = None \<longleftrightarrow> length (candidates st) < 2"
  by (simp add: getNextPair_def split: option.splits)

lemma getNextPair_Some:
  assumes s1: "is_shuffle shuffle1" and s2: "is_shuffle shuffle2"
    and r: "getNextPair shuffle1 rnd shuffle2 st = Some (i, j)"
  shows "i \<noteq> j \<and> i < length (candidates st) \<and> j < length (candidates st)"
proof -
  from r have n2: "2 \<le> length (candidates st)"
    by (simp add: getNextPair_def split: if_splits)
  show ?thesis
  proof (cases "underComparedPair shuffle1 st")
    case (Some pair)
    with r n2 have "underComparedPair shuffle1 st = Some (i, j)"
      by (simp add: getNextPair_def)
    with s1 show ?thesis by (rule underComparedPair_valid)
  next
    case None
    note nf = this
    show ?thesis
    proof (cases "adjacentPair rnd st")
      case (Some pair)
      with r n2 nf have "adjacentPair rnd st = Some (i, j)"
        by (simp add: getNextPair_def)
      with n2 show ?thesis by (rule adjacentPair_valid)
    next
      case None
      with r n2 nf have "randomPair shuffle2 st = (i, j)"
        by (simp add: getNextPair_def)
      with s2 n2 show ?thesis by (rule randomPair_valid)
    qed
  qed
qed

text \<open>
  Claim C3. Whatever the random draws, provided each shuffle leaves a permutation of its
  array: getNextPair returns \<open>null\<close> if and only if there are fewer than 2 candidates,
  and a pair it returns consists of two different candidates of the pool (two different
  positions of \<open>state.candidates\<close>), with different ids when the ids of the pool are
  pairwise different.
\<close>

theorem C3_getNextPair_pairs:
  assumes "is_shuffle shuffle1" and "is_shuffle shuffle2"
  shows "(getNextPair shuffle1 rnd shuffle2 st = None \<longleftrightarrow> length (candidates st) < 2)
       \<and> (\<forall>i j. getNextPair shuffle1 rnd shuffle2 st = Some (i, j) \<longrightarrow>
             i \<noteq> j \<and> i < length (candidates st) \<and> j < length (candidates st)
             \<and> (distinct (map photo_id (candidates st)) \<longrightarrow>
                  photo_id (candidates st ! i) \<noteq> photo_id (candidates st ! j)))"
proof -
  have none: "getNextPair shuffle1 rnd shuffle2 st = None \<longleftrightarrow> length (candidates st) < 2"
    by (rule getNextPair_None_iff)
  have some: "i \<noteq> j \<and> i < length (candidates st) \<and> j < length (candidates st)
             \<and> (distinct (map photo_id (candidates st)) \<longrightarrow>
                  photo_id (candidates st ! i) \<noteq> photo_id (candidates st ! j))"
    if r: "getNextPair shuffle1 rnd shuffle2 st = Some (i, j)" for i j
  proof -
    from getNextPair_Some [OF assms r]
    have ij: "i \<noteq> j" "i < length (candidates st)" "j < length (candidates st)"
      by simp_all
    have "photo_id (candidates st ! i) \<noteq> photo_id (candidates st ! j)"
      if d: "distinct (map photo_id (candidates st))"
      using nth_eq_iff_index_eq [OF d, of i j] ij by simp
    with ij show ?thesis by simp
  qed
  show ?thesis
    using none some by blast
qed


lemma getNextPair_under:
  assumes "2 \<le> length (candidates st)" "2 \<le> length (underCompared (candidates st))"
    and "first_fresh_pair
           (\<lambda>i j. recentlyCompared (comparisonHistory st) 10 (candidates st ! i) (candidates st ! j))
           (shuffle1 (underCompared (candidates st))) = Some pair"
  shows "getNextPair shuffle1 rnd shuffle2 st = Some pair"
  using assms by (simp add: getNextPair_def underComparedPair_def Let_def)

lemma underCompared_session0: "underCompared (candidates session0) = [0, 1, 2]"
  by (simp add: underCompared_def sortedByComparisons_def js_sort_def session0_def
      compareByComparisons_def comparisons_or0_def photoA_def photoB_def photoC_def)

lemma underCompared_session1: "underCompared (candidates session1) = [2, 0, 1]"
  by (simp add: underCompared_def sortedByComparisons_def js_sort_def session1_def
      compareByComparisons_def comparisons_or0_def)

lemma session_lengths:
  "length (candidates session0) = 3" "length (candidates session1) = 3"
  by (simp_all add: session0_def session1_def)

lemma session0_fresh: "\<not> recentlyCompared (comparisonHistory session0) k p q"
  by (simp add: recentlyCompared_def session0_def)

lemma session1_recent:
  "recentlyCompared (comparisonHistory session1) 10
     (candidates session1 ! 0) (candidates session1 ! Suc 0)"
  "recentlyCompared (comparisonHistory session1) 10
     (candidates session1 ! Suc 0) (candidates session1 ! 0)"
  "\<not> recentlyCompared (comparisonHistory session1) 10
     (candidates session1 ! 0) (candidates session1 ! 2)"
  "\<not> recentlyCompared (comparisonHistory session1) 10
     (candidates session1 ! 2) (candidates session1 ! 0)"
  "\<not> recentlyCompared (comparisonHistory session1) 10
     (candidates session1 ! Suc 0) (candidates session1 ! 2)"
  "\<not> recentlyCompared (comparisonHistory session1) 10
     (candidates session1 ! 2) (candidates session1 ! Suc 0)"
  by (simp_all add: recentlyCompared_def session1_def session0_def)

theorem C3_getNextPair_pairs_witness:
  "is_shuffle rev
   \<and> getNextPair rev 0 rev session0 = Some (2, 1)
   \<and> photo_id (candidates session0 ! 2) \<noteq> photo_id (candidates session0 ! 1)
   \<and> getNextPair rev 0 rev (session0\<lparr>candidates := [photoA]\<rparr>) = None"
proof -
  have sh: "is_shuffle rev"
    by (simp add: is_shuffle_def)
  have p: "getNextPair rev 0 rev session0 = Some (2, 1)"
    by (rule getNextPair_under)
      (simp_all add: underCompared_session0 session_lengths session0_fresh)
  have d: "distinct (map photo_id (candidates session0))"
    by (simp add: session0_def photoA_def photoB_def photoC_def)
  from C3_getNextPair_pairs [OF sh sh, of 0 "session0\<lparr>candidates := [photoA]\<rparr>"]
  have n: "getNextPair rev 0 rev (session0\<lparr>candidates := [photoA]\<rparr>) = None"
    by simp
  from C3_getNextPair_pairs [OF sh sh, of 0 session0] p d
  have "photo_id (candidates session0 ! 2) \<noteq> photo_id (candidates session0 ! 1)"
    by blast
  with sh p n show ?thesis by simp
qed

lemma permutation_of_three:
  assumes "mset xs = mset [2, 0, 1 :: nat]"
  shows "xs \<in> {[0, 1, 2], [0, 2, 1], [1, 0, 2], [1, 2, 0], [2, 0, 1], [2, 1, 0]}"
proof -
  from mset_eq_length [OF assms] have "length xs = 3"
    by simp
  then obtain x y z where xs: "xs = [x, y, z]"
    by (auto simp: length_Suc_conv numeral_3_eq_3)
  have d: "distinct xs"
    using mset_eq_imp_distinct_iff [OF assms] by simp
  have "set xs = {0, 1, 2}"
    using mset_eq_setD [OF assms] by auto
  moreover have "x \<in> set xs" "y \<in> set xs" "z \<in> set xs"
    by (simp_all add: xs)
  ultimately have "x = 0 \<or> x = 1 \<or> x = 2" "y = 0 \<or> y = 1 \<or> y = 2"
    "z = 0 \<or> z = 1 \<or> z = 2"
    by simp_all
  moreover from d have "x \<noteq> y" "x \<noteq> z" "y \<noteq> z"
    by (simp_all add: xs)
  ultimately show ?thesis
    unfolding xs by auto
qed

text \<open>
  Claim C4. With the candidates A, B and C at 1500 and no comparisons, all three are
  under-compared and the first call of getNextPair returns the first two of their
  shuffle. After A has beaten B the candidates stand at 1516/1, 1484/1 and 1500/0, the
  pair A, B is in the recent history, and for every outcome of the random draws the next
  call returns C together with A or with B.
\<close>

theorem C4_fairness_scenario:
  assumes "is_shuffle shuffle1"
  shows "set (underCompared (candidates session0)) = {0, 1, 2}
       \<and> getNextPair shuffle1 rnd shuffle2 session0
           = Some (shuffle1 (underCompared (candidates session0)) ! 0,
                   shuffle1 (underCompared (candidates session0)) ! 1)
       \<and> confirmComparison session0 = Some session1
       \<and> map (\<lambda>p. (photo_id p, elo p, comparisons p)) (candidates session1)
           = [(''A'', 1516, Some 1), (''B'', 1484, Some 1), (''C'', 1500, Some 0)]
       \<and> recentlyCompared (comparisonHistory session1) 10
            (candidates session1 ! 0) (candidates session1 ! 1)
       \<and> getNextPair shuffle1 rnd shuffle2 session1
           \<in> {Some (2, 0), Some (0, 2), Some (2, 1), Some (1, 2)}"
proof -
  have u0: "set (underCompared (candidates session0)) = {0, 1, 2}"
    unfolding underCompared_session0 by auto
  have "mset (shuffle1 [0, 1, 2]) = mset [2, 0, 1]"
    using assms by (simp add: is_shuffle_def)
  then have p0: "shuffle1 [0, 1, 2]
      \<in> {[0, 1, 2], [0, 2, 1], [1, 0, 2], [1, 2, 0], [2, 0, 1], [2, 1, 0]}"
    by (rule permutation_of_three)
  let ?fresh = "\<lambda>i j. recentlyCompared (comparisonHistory session0) 10
                     (candidates session0 ! i) (candidates session0 ! j)"
  have ffp0: "first_fresh_pair ?fresh (x # y # zs) = Some (x, y)" for x y zs
    by (simp add: session0_fresh)
  have "first_fresh_pair ?fresh (shuffle1 [0, 1, 2])
      = Some (shuffle1 [0, 1, 2] ! 0, shuffle1 [0, 1, 2] ! 1)"
    using p0 by (elim insertE emptyE) (simp_all only: ffp0 nth_Cons_0 nth_Cons_Suc One_nat_def)
  then have first: "getNextPair shuffle1 rnd shuffle2 session0
           = Some (shuffle1 (underCompared (candidates session0)) ! 0,
                   shuffle1 (underCompared (candidates session0)) ! 1)"
    by (intro getNextPair_under) (simp_all add: session_lengths underCompared_session0)
  have cands: "map (\<lambda>p. (photo_id p, elo p, comparisons p)) (candidates session1)
           = [(''A'', 1516, Some 1), (''B'', 1484, Some 1), (''C'', 1500, Some 0)]"
    by (simp add: session1_def session0_def)
  let ?recent = "\<lambda>i j. recentlyCompared (comparisonHistory session1) 10
                     (candidates session1 ! i) (candidates session1 ! j)"
  have "mset (shuffle1 [2, 0, 1]) = mset [2, 0, 1]"
    using assms by (simp add: is_shuffle_def)
  then have p1: "shuffle1 [2, 0, 1]
      \<in> {[0, 1, 2], [0, 2, 1], [1, 0, 2], [1, 2, 0], [2, 0, 1], [2, 1, 0]}"
    by (rule permutation_of_three)
  have ffp: "first_fresh_pair ?recent (shuffle1 [2, 0, 1])
      \<in> {Some (2, 0), Some (0, 2), Some (2, 1), Some (1, 2)}"
    using p1 by (elim insertE emptyE) (simp_all add: session1_recent)
  then obtain pair where pair: "first_fresh_pair ?recent (shuffle1 [2, 0, 1]) = Some pair"
    and mem: "Some pair \<in> {Some (2, 0), Some (0, 2), Some (2, 1), Some (1, 2)}"
    by auto
  have "getNextPair shuffle1 rnd shuffle2 session1 = Some pair"
    using pair
    by (intro getNextPair_under) (simp_all add: session_lengths underCompared_session1)
  with mem have second: "getNextPair shuffle1 rnd shuffle2 session1
      \<in> {Some (2, 0), Some (0, 2), Some (2, 1), Some (1, 2)}"
    by simp
  have rc: "recentlyCompared (comparisonHistory session1) 10
      (candidates session1 ! 0) (candidates session1 ! 1)"
    using session1_recent(1) by simp
  show ?thesis
    using u0 first confirmComparison_session0 cands rc second by (intro conjI)
qed

theorem C4_fairness_scenario_witness:
  "is_shuffle rev
   \<and> getNextPair rev 0 rev session0 = Some (2, 1)
   \<and> getNextPair rev 0 rev session1 \<in> {Some (2, 0), Some (0, 2), Some (2, 1), Some (1, 2)}
   \<and> getNextPair (\<lambda>xs. xs) 0 rev session1 = Some (2, 0)"
proof -
  have sh: "is_shuffle rev"
    by (simp add: is_shuffle_def)
  have a: "getNextPair (\<lambda>xs. xs) 0 rev session1 = Some (2, 0)"
    by (rule getNextPair_under)
      (simp_all add: underCompared_session1 session_lengths session1_recent)
  show ?thesis
    using sh a C4_fairness_scenario [OF sh, of 0 rev]
    by (simp add: underCompared_session0)
qed

end
